theory Spec2Isabelle
  imports Main
begin

section \<open>The host runtime: clock readings and one-shot timers\<close>

text \<open>
  \<^verbatim>\<open>debounce.ts\<close> and \<^verbatim>\<open>throttle.ts\<close> keep their state in closure variables and talk
  to the host through \<^verbatim>\<open>Date.now()\<close>, \<^verbatim>\<open>setTimeout\<close> and \<^verbatim>\<open>clearTimeout\<close>.
  The closure variables become the fields of a record that every function takes and
  returns.  A clock reading is an \<^typ>\<open>int\<close> (milliseconds) passed in by the caller of
  each entry point, and so are the delays \<^verbatim>\<open>wait\<close> and \<^verbatim>\<open>maxWait\<close>; a handler runs
  in no time, so the one reading serves the whole handler.  The host's timer queue is
  part of the same record: \<open>timers\<close> lists the timers that are scheduled and neither
  fired nor cleared, in the order of their creation, each with its handle, the callback
  it will run and the time it is due.  \<open>invocations\<close> is an observation: one entry
  (time, receiver, arguments) for every application of the wrapped function.

  The wrapped function takes a receiver and an argument list and returns a value or
  throws.  \<^verbatim>\<open>null\<close> and \<^verbatim>\<open>undefined\<close> are \<open>None\<close>.  The pending arguments are an
  array, which JavaScript counts as true even when it is empty, so the tests
  \<^verbatim>\<open>lastArgs && ...\<close> of the source are tests against \<^verbatim>\<open>null\<close>.
\<close>

datatype callback = TimerExpired | MaxTimerExpired

type_synonym timer = "nat \<times> callback \<times> int"

datatype 'v res = Returns 'v | Throws

type_synonym ('a, 't, 'r) func = "'t option \<Rightarrow> 'a list \<Rightarrow> 'r res"

record ('a, 't, 'r) throttle_state =
  timeout :: "nat option"
  lastArgs :: "'a list option"
  lastThis :: "'t option"
  result :: "'r option"
  lastCallTime :: "int option"
  lastInvokeTime :: int
  timers :: "timer list"
  nextHandle :: nat
  invocations :: "(int \<times> 't option \<times> 'a list) list"

record ('a, 't, 'r) debounce_state = "('a, 't, 'r) throttle_state" +
  maxTimeout :: "nat option"

record throttle_options =
  wait :: int
  leading :: bool
  trailing :: bool

record debounce_options = throttle_options +
  maxWait :: "int option"

text \<open>
  \<^verbatim>\<open>setTimeout(cb, delay)\<close> at clock reading \<open>now\<close>: a fresh handle, the timer due at
  \<open>now + delay\<close> (a negative delay counts as 0).  \<^verbatim>\<open>clearTimeout(h)\<close> removes the
  timer with handle \<open>h\<close> if it is still scheduled and does nothing otherwise.
\<close>

definition setTimeout ::
  "callback \<Rightarrow> int \<Rightarrow> int \<Rightarrow> ('a, 't, 'r, 'z) throttle_state_scheme
    \<Rightarrow> nat \<times> ('a, 't, 'r, 'z) throttle_state_scheme" where
  "setTimeout cb delay now s =
     (nextHandle s,
      s\<lparr>timers := timers s @ [(nextHandle s, cb, now + max 0 delay)],
        nextHandle := Suc (nextHandle s)\<rparr>)"

definition clearTimeout ::
  "nat \<Rightarrow> ('a, 't, 'r, 'z) throttle_state_scheme \<Rightarrow> ('a, 't, 'r, 'z) throttle_state_scheme" where
  "clearTimeout h s = s\<lparr>timers := filter (\<lambda>tm. fst tm \<noteq> h) (timers s)\<rparr>"

text \<open>\<^verbatim>\<open>lastCallTime || 0\<close>: \<^verbatim>\<open>null\<close> (and 0) read as 0.\<close>

definition orZero :: "int option \<Rightarrow> int" where
  "orZero v = (case v of None \<Rightarrow> 0 | Some t \<Rightarrow> t)"

section \<open>debounce.ts\<close>

definition debounce_init :: "('a, 't, 'r) debounce_state" where
  "debounce_init =
     \<lparr>timeout = None, lastArgs = None, lastThis = None, result = None,
      lastCallTime = None, lastInvokeTime = 0, timers = [], nextHandle = 0,
      invocations = [], maxTimeout = None\<rparr>"

text \<open>
  \<^verbatim>\<open>invokeFunc\<close>: the three assignments come before \<^verbatim>\<open>func.apply\<close>, so they stand
  whether or not the wrapped function throws; only \<^verbatim>\<open>result\<close> is assigned after it.
  \<^verbatim>\<open>func.apply(thisArg, null)\<close> applies the function to no arguments.
\<close>

definition invokeFunc ::
  "('a, 't, 'r) func \<Rightarrow> int \<Rightarrow> ('a, 't, 'r) debounce_state
    \<Rightarrow> ('a, 't, 'r) debounce_state \<times> 'r option res" where
  "invokeFunc func time s =
     (let args = (case lastArgs s of None \<Rightarrow> [] | Some a \<Rightarrow> a);
          thisArg = lastThis s;
          s1 = s\<lparr>lastArgs := None, lastThis := None, lastInvokeTime := time,
                 invocations := invocations s @ [(time, thisArg, args)]\<rparr>
      in case func thisArg args of
           Returns v \<Rightarrow> (s1\<lparr>result := Some v\<rparr>, Returns (Some v))
         | Throws \<Rightarrow> (s1, Throws))"

definition shouldInvoke :: "debounce_options \<Rightarrow> int \<Rightarrow> ('a, 't, 'r) debounce_state \<Rightarrow> bool" where
  "shouldInvoke opts time s =
     (let timeSinceLastCall = time - orZero (lastCallTime s);
          timeSinceLastInvoke = time - lastInvokeTime s
      in lastCallTime s = None \<or>
         timeSinceLastCall \<ge> wait opts \<or>
         timeSinceLastCall < 0 \<or>
         (case maxWait opts of None \<Rightarrow> False | Some mw \<Rightarrow> timeSinceLastInvoke \<ge> mw))"

definition leadingEdge ::
  "debounce_options \<Rightarrow> ('a, 't, 'r) func \<Rightarrow> int \<Rightarrow> ('a, 't, 'r) debounce_state
    \<Rightarrow> ('a, 't, 'r) debounce_state \<times> 'r option res" where
  "leadingEdge opts func time s =
     (let s1 = s\<lparr>lastInvokeTime := time\<rparr>;
          (h, s2) = setTimeout TimerExpired (wait opts) time s1;
          s3 = s2\<lparr>timeout := Some h\<rparr>;
          s4 = (case maxWait opts of
                  None \<Rightarrow> s3
                | Some mw \<Rightarrow>
                    (let (h', s') = setTimeout MaxTimerExpired mw time s3
                     in s'\<lparr>maxTimeout := Some h'\<rparr>))
      in if leading opts then invokeFunc func time s4 else (s4, Returns (result s4)))"

definition remainingWait :: "debounce_options \<Rightarrow> int \<Rightarrow> ('a, 't, 'r) debounce_state \<Rightarrow> int" where
  "remainingWait opts time s =
     (let timeSinceLastCall = time - orZero (lastCallTime s);
          timeSinceLastInvoke = time - lastInvokeTime s;
          timeWaiting = wait opts - timeSinceLastCall
      in case maxWait opts of
           Some mw \<Rightarrow> min timeWaiting (mw - timeSinceLastInvoke)
         | None \<Rightarrow> timeWaiting)"

definition trailingEdge ::
  "debounce_options \<Rightarrow> ('a, 't, 'r) func \<Rightarrow> int \<Rightarrow> ('a, 't, 'r) debounce_state
    \<Rightarrow> ('a, 't, 'r) debounce_state \<times> 'r option res" where
  "trailingEdge opts func time s =
     (let s1 = s\<lparr>timeout := None\<rparr>;
          s2 = (case maxTimeout s1 of
                  None \<Rightarrow> s1
                | Some m \<Rightarrow> (clearTimeout m s1)\<lparr>maxTimeout := None\<rparr>)
      in if trailing opts \<and> lastArgs s2 \<noteq> None then invokeFunc func time s2
         else (s2\<lparr>lastArgs := None, lastThis := None\<rparr>, Returns (result s2)))"

text \<open>
  The two timer callbacks return nothing; the model returns the new state and whether an
  exception of the wrapped function escaped into the host.
\<close>

definition timerExpired ::
  "debounce_options \<Rightarrow> ('a, 't, 'r) func \<Rightarrow> int \<Rightarrow> ('a, 't, 'r) debounce_state
    \<Rightarrow> ('a, 't, 'r) debounce_state \<times> unit res" where
  "timerExpired opts func now s =
     (let time = now
      in if shouldInvoke opts time s then
           (case trailingEdge opts func time s of
              (s', Returns _) \<Rightarrow> (s', Returns ())
            | (s', Throws) \<Rightarrow> (s', Throws))
         else
           (let (h, s1) = setTimeout TimerExpired (remainingWait opts time s) now s
            in (s1\<lparr>timeout := Some h\<rparr>, Returns ())))"

definition maxTimerExpired ::
  "debounce_options \<Rightarrow> ('a, 't, 'r) func \<Rightarrow> int \<Rightarrow> ('a, 't, 'r) debounce_state
    \<Rightarrow> ('a, 't, 'r) debounce_state \<times> unit res" where
  "maxTimerExpired opts func now s =
     (if lastArgs s \<noteq> None \<and> trailing opts then
        (case trailingEdge opts func now s of
           (s', Returns _) \<Rightarrow> (s', Returns ())
         | (s', Throws) \<Rightarrow> (s', Throws))
      else (s, Returns ()))"

definition cancel :: "('a, 't, 'r) debounce_state \<Rightarrow> ('a, 't, 'r) debounce_state" where
  "cancel s =
     (let s1 = (case timeout s of None \<Rightarrow> s | Some h \<Rightarrow> clearTimeout h s);
          s2 = (case maxTimeout s1 of None \<Rightarrow> s1 | Some m \<Rightarrow> clearTimeout m s1)
      in s2\<lparr>lastInvokeTime := 0, lastArgs := None, lastThis := None,
            lastCallTime := None, timeout := None, maxTimeout := None\<rparr>)"

definition flush ::
  "debounce_options \<Rightarrow> ('a, 't, 'r) func \<Rightarrow> int \<Rightarrow> ('a, 't, 'r) debounce_state
    \<Rightarrow> ('a, 't, 'r) debounce_state \<times> 'r option res" where
  "flush opts func now s =
     (if timeout s = None \<and> maxTimeout s = None then (s, Returns (result s))
      else trailingEdge opts func now s)"

definition pending :: "('a, 't, 'r) debounce_state \<Rightarrow> bool" where
  "pending s = (timeout s \<noteq> None)"

definition debounced ::
  "debounce_options \<Rightarrow> ('a, 't, 'r) func \<Rightarrow> int \<Rightarrow> 't \<Rightarrow> 'a list
    \<Rightarrow> ('a, 't, 'r) debounce_state \<Rightarrow> ('a, 't, 'r) debounce_state \<times> 'r option res" where
  "debounced opts func now this args s =
     (let time = now;
          isInvoking = shouldInvoke opts time s;
          s1 = s\<lparr>lastArgs := Some args, lastThis := Some this, lastCallTime := Some time\<rparr>;
          rest = (\<lambda>u::unit.
                    (let s2 = (if timeout s1 = None then
                                 (let (h, s') = setTimeout TimerExpired (wait opts) now s1
                                  in s'\<lparr>timeout := Some h\<rparr>)
                               else s1)
                     in (s2, Returns (result s2))))
      in if isInvoking then
           (if timeout s1 = None then leadingEdge opts func time s1
            else if maxWait opts \<noteq> None then
              (let (h, s') = setTimeout TimerExpired (wait opts) now s1
               in invokeFunc func time (s'\<lparr>timeout := Some h\<rparr>))
            else rest ())
         else rest ())"

section \<open>throttle.ts\<close>

definition throttle_init :: "('a, 't, 'r) throttle_state" where
  "throttle_init =
     \<lparr>timeout = None, lastArgs = None, lastThis = None, result = None,
      lastCallTime = None, lastInvokeTime = 0, timers = [], nextHandle = 0,
      invocations = []\<rparr>"

definition invokeFunc_thr ::
  "('a, 't, 'r) func \<Rightarrow> int \<Rightarrow> ('a, 't, 'r) throttle_state
    \<Rightarrow> ('a, 't, 'r) throttle_state \<times> 'r option res" where
  "invokeFunc_thr func time s =
     (let args = (case lastArgs s of None \<Rightarrow> [] | Some a \<Rightarrow> a);
          thisArg = lastThis s;
          s1 = s\<lparr>lastArgs := None, lastThis := None, lastInvokeTime := time,
                 invocations := invocations s @ [(time, thisArg, args)]\<rparr>
      in case func thisArg args of
           Returns v \<Rightarrow> (s1\<lparr>result := Some v\<rparr>, Returns (Some v))
         | Throws \<Rightarrow> (s1, Throws))"

definition shouldInvoke_thr :: "throttle_options \<Rightarrow> int \<Rightarrow> ('a, 't, 'r) throttle_state \<Rightarrow> bool" where
  "shouldInvoke_thr opts time s =
     (let timeSinceLastCall = time - orZero (lastCallTime s);
          timeSinceLastInvoke = time - lastInvokeTime s
      in lastCallTime s = None \<or>
         timeSinceLastCall \<ge> wait opts \<or>
         timeSinceLastCall < 0 \<or>
         timeSinceLastInvoke \<ge> wait opts)"

definition leadingEdge_thr ::
  "throttle_options \<Rightarrow> ('a, 't, 'r) func \<Rightarrow> int \<Rightarrow> ('a, 't, 'r) throttle_state
    \<Rightarrow> ('a, 't, 'r) throttle_state \<times> 'r option res" where
  "leadingEdge_thr opts func time s =
     (let s1 = s\<lparr>lastInvokeTime := time\<rparr>;
          (h, s2) = setTimeout TimerExpired (wait opts) time s1;
          s3 = s2\<lparr>timeout := Some h\<rparr>
      in if leading opts then invokeFunc_thr func time s3 else (s3, Returns (result s3)))"

definition remainingWait_thr :: "throttle_options \<Rightarrow> int \<Rightarrow> ('a, 't, 'r) throttle_state \<Rightarrow> int" where
  "remainingWait_thr opts time s =
     (let timeSinceLastCall = time - orZero (lastCallTime s);
          timeSinceLastInvoke = time - lastInvokeTime s;
          timeWaiting = wait opts - timeSinceLastCall
      in min timeWaiting (wait opts - timeSinceLastInvoke))"

definition trailingEdge_thr ::
  "throttle_options \<Rightarrow> ('a, 't, 'r) func \<Rightarrow> int \<Rightarrow> ('a, 't, 'r) throttle_state
    \<Rightarrow> ('a, 't, 'r) throttle_state \<times> 'r option res" where
  "trailingEdge_thr opts func time s =
     (let s1 = s\<lparr>timeout := None\<rparr>
      in if trailing opts \<and> lastArgs s1 \<noteq> None then invokeFunc_thr func time s1
         else (s1\<lparr>lastArgs := None, lastThis := None\<rparr>, Returns (result s1)))"

definition timerExpired_thr ::
  "throttle_options \<Rightarrow> ('a, 't, 'r) func \<Rightarrow> int \<Rightarrow> ('a, 't, 'r) throttle_state
    \<Rightarrow> ('a, 't, 'r) throttle_state \<times> unit res" where
  "timerExpired_thr opts func now s =
     (let time = now
      in if shouldInvoke_thr opts time s then
           (case trailingEdge_thr opts func time s of
              (s', Returns _) \<Rightarrow> (s', Returns ())
            | (s', Throws) \<Rightarrow> (s', Throws))
         else
           (let (h, s1) = setTimeout TimerExpired (remainingWait_thr opts time s) now s
            in (s1\<lparr>timeout := Some h\<rparr>, Returns ())))"

definition cancel_thr :: "('a, 't, 'r) throttle_state \<Rightarrow> ('a, 't, 'r) throttle_state" where
  "cancel_thr s =
     (let s1 = (case timeout s of None \<Rightarrow> s | Some h \<Rightarrow> clearTimeout h s)
      in s1\<lparr>lastInvokeTime := 0, lastArgs := None, lastThis := None,
            lastCallTime := None, timeout := None\<rparr>)"

definition flush_thr ::
  "throttle_options \<Rightarrow> ('a, 't, 'r) func \<Rightarrow> int \<Rightarrow> ('a, 't, 'r) throttle_state
    \<Rightarrow> ('a, 't, 'r) throttle_state \<times> 'r option res" where
  "flush_thr opts func now s =
     (if timeout s = None then (s, Returns (result s))
      else trailingEdge_thr opts func now s)"

definition throttled ::
  "throttle_options \<Rightarrow> ('a, 't, 'r) func \<Rightarrow> int \<Rightarrow> 't \<Rightarrow> 'a list
    \<Rightarrow> ('a, 't, 'r) throttle_state \<Rightarrow> ('a, 't, 'r) throttle_state \<times> 'r option res" where
  "throttled opts func now this args s =
     (let time = now;
          isInvoking = shouldInvoke_thr opts time s;
          s1 = s\<lparr>lastArgs := Some args, lastThis := Some this, lastCallTime := Some time\<rparr>;
          rest = (\<lambda>u::unit.
                    (let s2 = (if timeout s1 = None then
                                 (let (h, s') = setTimeout TimerExpired (wait opts) now s1
                                  in s'\<lparr>timeout := Some h\<rparr>)
                               else s1)
                     in (s2, Returns (result s2))))
      in if isInvoking then
           (if timeout s1 = None then leadingEdge_thr opts func time s1 else rest ())
         else rest ())"

section \<open>Runs: the host drives the wrapper\<close>

text \<open>
  The host runs one handler at a time.  An event is a call of the wrapper, the firing of
  a timer (by handle, at a clock reading), \<^verbatim>\<open>cancel()\<close> or \<^verbatim>\<open>flush()\<close>.  A timer
  fires only while it is scheduled and not before it is due; firing removes it from the
  queue and runs its callback.  Firing anything else changes nothing.
\<close>

datatype ('a, 't) event =
  Call int 't "'a list" | Fire int nat | Cancel | Flush int

definition dispatch ::
  "debounce_options \<Rightarrow> ('a, 't, 'r) func \<Rightarrow> int \<Rightarrow> timer \<Rightarrow> ('a, 't, 'r) debounce_state
    \<Rightarrow> ('a, 't, 'r) debounce_state" where
  "dispatch opts func now tm s =
     (let s1 = clearTimeout (fst tm) s
      in case fst (snd tm) of
           TimerExpired \<Rightarrow> fst (timerExpired opts func now s1)
         | MaxTimerExpired \<Rightarrow> fst (maxTimerExpired opts func now s1))"

definition fire ::
  "debounce_options \<Rightarrow> ('a, 't, 'r) func \<Rightarrow> int \<Rightarrow> nat \<Rightarrow> ('a, 't, 'r) debounce_state
    \<Rightarrow> ('a, 't, 'r) debounce_state" where
  "fire opts func now h s =
     (case find (\<lambda>tm. fst tm = h) (timers s) of
        None \<Rightarrow> s
      | Some tm \<Rightarrow> if now < snd (snd tm) then s else dispatch opts func now tm s)"

fun step ::
  "debounce_options \<Rightarrow> ('a, 't, 'r) func \<Rightarrow> ('a, 't, 'r) debounce_state \<Rightarrow> ('a, 't) event
    \<Rightarrow> ('a, 't, 'r) debounce_state" where
  "step opts func s (Call now this args) = fst (debounced opts func now this args s)"
| "step opts func s (Fire now h) = fire opts func now h s"
| "step opts func s Cancel = cancel s"
| "step opts func s (Flush now) = fst (flush opts func now s)"

definition run ::
  "debounce_options \<Rightarrow> ('a, 't, 'r) func \<Rightarrow> ('a, 't, 'r) debounce_state \<Rightarrow> ('a, 't) event list
    \<Rightarrow> ('a, 't, 'r) debounce_state" where
  "run opts func s evs = foldl (step opts func) s evs"

definition dispatch_thr ::
  "throttle_options \<Rightarrow> ('a, 't, 'r) func \<Rightarrow> int \<Rightarrow> timer \<Rightarrow> ('a, 't, 'r) throttle_state
    \<Rightarrow> ('a, 't, 'r) throttle_state" where
  "dispatch_thr opts func now tm s =
     (let s1 = clearTimeout (fst tm) s
      in case fst (snd tm) of
           TimerExpired \<Rightarrow> fst (timerExpired_thr opts func now s1)
         | MaxTimerExpired \<Rightarrow> s1)"

definition fire_thr ::
  "throttle_options \<Rightarrow> ('a, 't, 'r) func \<Rightarrow> int \<Rightarrow> nat \<Rightarrow> ('a, 't, 'r) throttle_state
    \<Rightarrow> ('a, 't, 'r) throttle_state" where
  "fire_thr opts func now h s =
     (case find (\<lambda>tm. fst tm = h) (timers s) of
        None \<Rightarrow> s
      | Some tm \<Rightarrow> if now < snd (snd tm) then s else dispatch_thr opts func now tm s)"

fun step_thr ::
  "throttle_options \<Rightarrow> ('a, 't, 'r) func \<Rightarrow> ('a, 't, 'r) throttle_state \<Rightarrow> ('a, 't) event
    \<Rightarrow> ('a, 't, 'r) throttle_state" where
  "step_thr opts func s (Call now this args) = fst (throttled opts func now this args s)"
| "step_thr opts func s (Fire now h) = fire_thr opts func now h s"
| "step_thr opts func s Cancel = cancel_thr s"
| "step_thr opts func s (Flush now) = fst (flush_thr opts func now s)"

definition run_thr ::
  "throttle_options \<Rightarrow> ('a, 't, 'r) func \<Rightarrow> ('a, 't, 'r) throttle_state \<Rightarrow> ('a, 't) event list
    \<Rightarrow> ('a, 't, 'r) throttle_state" where
  "run_thr opts func s evs = foldl (step_thr opts func) s evs"

section \<open>Timers that fire on time\<close>

text \<open>
  An ideal host fires every timer exactly when it is due, the earliest first and, among
  timers due at the same time, the one created first.  \<open>advance opts func t\<close> lets the
  clock run to \<open>t\<close>: it fires, in that order, every timer due at or before \<open>t\<close>,
  those included that the callbacks schedule on the way.  \<open>serve\<close> delivers a list of
  calls (time, receiver, arguments); the timers due at the time of a call fire before it.
\<close>

fun earliest :: "timer list \<Rightarrow> timer option" where
  "earliest [] = None"
| "earliest (tm # tms) =
     (case earliest tms of
        None \<Rightarrow> Some tm
      | Some tm' \<Rightarrow> if snd (snd tm) \<le> snd (snd tm') then Some tm else Some tm')"

function advance ::
  "debounce_options \<Rightarrow> ('a, 't, 'r) func \<Rightarrow> int \<Rightarrow> ('a, 't, 'r) debounce_state
    \<Rightarrow> ('a, 't, 'r) debounce_state" where
  "advance opts func t s =
     (case earliest (timers s) of
        None \<Rightarrow> s
      | Some tm \<Rightarrow>
          if snd (snd tm) \<le> t then advance opts func t (dispatch opts func (snd (snd tm)) tm s)
          else s)"
  by pat_completeness auto

fun serve ::
  "debounce_options \<Rightarrow> ('a, 't, 'r) func \<Rightarrow> ('a, 't, 'r) debounce_state
    \<Rightarrow> (int \<times> 't \<times> 'a list) list \<Rightarrow> ('a, 't, 'r) debounce_state" where
  "serve opts func s [] = s"
| "serve opts func s ((t, this, args) # cs) =
     serve opts func (fst (debounced opts func t this args (advance opts func t s))) cs"

section \<open>Auxiliary notions\<close>

text \<open>The arguments \<^verbatim>\<open>func.apply\<close> passes on, and \<^verbatim>\<open>result\<close> after an application.\<close>

definition args_of :: "'a list option \<Rightarrow> 'a list" where
  "args_of v = (case v of None \<Rightarrow> [] | Some a \<Rightarrow> a)"

definition result_after :: "'r res \<Rightarrow> 'r option \<Rightarrow> 'r option" where
  "result_after out old = (case out of Returns v \<Rightarrow> Some v | Throws \<Rightarrow> old)"

text \<open>The option defaults of the two constructors.\<close>

definition debounce_defaults :: "int \<Rightarrow> debounce_options" where
  "debounce_defaults w = \<lparr>wait = w, leading = False, trailing = True, maxWait = None\<rparr>"

definition throttle_defaults :: "int \<Rightarrow> throttle_options" where
  "throttle_defaults w = \<lparr>wait = w, leading = True, trailing = True\<rparr>"

text \<open>The timers of the queue that will run \<^verbatim>\<open>timerExpired\<close>.\<close>

definition primary_timers :: "('a, 't, 'r, 'z) throttle_state_scheme \<Rightarrow> timer list" where
  "primary_timers s = filter (\<lambda>tm. fst (snd tm) = TimerExpired) (timers s)"

text \<open>
  The clock reading of an event (\<^verbatim>\<open>cancel()\<close> reads no clock); a list of events whose
  readings never decrease and start at or after \<open>t\<close>; the last reading of such a list;
  a list of events without \<^verbatim>\<open>cancel()\<close>; a list of calls as events.
\<close>

fun event_time :: "('a, 't) event \<Rightarrow> int option" where
  "event_time (Call now this args) = Some now"
| "event_time (Fire now h) = Some now"
| "event_time Cancel = None"
| "event_time (Flush now) = Some now"

fun clock_from :: "int \<Rightarrow> ('a, 't) event list \<Rightarrow> bool" where
  "clock_from t [] = True"
| "clock_from t (ev # evs) =
     (case event_time ev of
        None \<Rightarrow> clock_from t evs
      | Some t' \<Rightarrow> t \<le> t' \<and> clock_from t' evs)"

fun clock_after :: "int \<Rightarrow> ('a, 't) event list \<Rightarrow> int" where
  "clock_after t [] = t"
| "clock_after t (ev # evs) =
     clock_after (case event_time ev of None \<Rightarrow> t | Some t' \<Rightarrow> t') evs"

fun is_cancel :: "('a, 't) event \<Rightarrow> bool" where
  "is_cancel Cancel = True"
| "is_cancel ev = False"

definition no_cancel :: "('a, 't) event list \<Rightarrow> bool" where
  "no_cancel evs = (\<not> list_ex is_cancel evs)"

definition calls :: "(int \<times> 't \<times> 'a list) list \<Rightarrow> ('a, 't) event list" where
  "calls cs = map (\<lambda>(t, this, args). Call t this args) cs"

text \<open>
  Calls in the order of time, each less than \<open>w\<close> after the one before (the first one
  after \<open>t\<close>).  A wrapper in the middle of such a burst, the latest call made at \<open>tk\<close>:
  nothing applied yet, that call's receiver and arguments pending, and exactly one timer
  in the queue, the primary one, due no later than \<open>tk + wait\<close>.
\<close>

fun spaced :: "int \<Rightarrow> int \<Rightarrow> (int \<times> 't \<times> 'a list) list \<Rightarrow> bool" where
  "spaced w t [] = True"
| "spaced w t ((t', this, args) # cs) = (t \<le> t' \<and> t' - t < w \<and> spaced w t' cs)"

definition in_burst ::
  "debounce_options \<Rightarrow> ('a, 't, 'r) debounce_state \<Rightarrow> int \<Rightarrow> 't \<Rightarrow> 'a list \<Rightarrow> bool" where
  "in_burst opts s tk this args =
     (lastCallTime s = Some tk \<and> lastArgs s = Some args \<and> lastThis s = Some this
      \<and> maxTimeout s = None \<and> invocations s = []
      \<and> (\<exists>h due. timers s = [(h, TimerExpired, due)] \<and> timeout s = Some h
                   \<and> tk \<le> due \<and> due \<le> tk + wait opts))"

text \<open>
  Calls in the order of time, each made before the timers that the first call (made at
  \<open>t0\<close>) schedules are due: the primary timer at \<open>t0 + wait\<close> and, where \<^verbatim>\<open>maxWait\<close>
  is set, the escape timer at \<open>t0 + maxWait\<close>.
\<close>

fun before_due :: "debounce_options \<Rightarrow> int \<Rightarrow> int \<Rightarrow> (int \<times> 't \<times> 'a list) list \<Rightarrow> bool" where
  "before_due opts t0 t [] = True"
| "before_due opts t0 t ((t', this, args) # cs) =
     (t \<le> t' \<and> t' < t0 + max 0 (wait opts)
      \<and> (case maxWait opts of None \<Rightarrow> True | Some mw \<Rightarrow> t' < t0 + max 0 mw)
      \<and> before_due opts t0 t' cs)"

text \<open>
  Calls arriving every \<open>h\<close> time units from time 0 on, the \<open>k\<close>-th with receiver
  \<open>this k\<close> and arguments \<open>args k\<close>; and the invocations that \<^verbatim>\<open>maxWait = W\<close>
  forces on them.  With a trailing edge (\<open>forced\<close>): one at every multiple of \<open>W\<close>,
  each applied to the receiver and arguments of the last call made before it.  With a
  leading edge only (\<open>led\<close>): one at 0 and at every multiple of \<open>W\<close>, each applied to
  the receiver and arguments of the call made at that time.
\<close>

definition periodic :: "int \<Rightarrow> (nat \<Rightarrow> 't) \<Rightarrow> (nat \<Rightarrow> 'a list) \<Rightarrow> nat \<Rightarrow> (int \<times> 't \<times> 'a list) list" where
  "periodic h this args n = map (\<lambda>k. (int k * h, this k, args k)) [0..<n]"

definition forced ::
  "int \<Rightarrow> int \<Rightarrow> (nat \<Rightarrow> 't) \<Rightarrow> (nat \<Rightarrow> 'a list) \<Rightarrow> nat \<Rightarrow> (int \<times> 't option \<times> 'a list) list" where
  "forced h W this args q =
     map (\<lambda>j. (int j * W, Some (this (nat ((int j * W - 1) div h))),
                args (nat ((int j * W - 1) div h)))) [1..<Suc q]"

definition led ::
  "int \<Rightarrow> int \<Rightarrow> (nat \<Rightarrow> 't) \<Rightarrow> (nat \<Rightarrow> 'a list) \<Rightarrow> nat \<Rightarrow> (int \<times> 't option \<times> 'a list) list" where
  "led h W this args q =
     map (\<lambda>j. (int j * W, Some (this (nat (int j * W div h))), args (nat (int j * W div h))))
       [0..<Suc q]"

text \<open>A leading invocation of the first call, if the wrapper has a leading edge.\<close>

definition pre_log ::
  "debounce_options \<Rightarrow> (nat \<Rightarrow> 't) \<Rightarrow> (nat \<Rightarrow> 'a list) \<Rightarrow> (int \<times> 't option \<times> 'a list) list" where
  "pre_log opts this args = (if leading opts then [(0, Some (this 0), args 0)] else [])"

text \<open>Serving one call on the ideal host: the timers due by then fire first.\<close>

definition tick ::
  "debounce_options \<Rightarrow> ('a, 't, 'r) func \<Rightarrow> int \<Rightarrow> 't \<Rightarrow> 'a list \<Rightarrow> ('a, 't, 'r) debounce_state
    \<Rightarrow> ('a, 't, 'r) debounce_state" where
  "tick opts func t this args s = fst (debounced opts func t this args (advance opts func t s))"

text \<open>
  What the proofs about periodic calls keep track of: the fields of the state, and the
  shapes the timer queue takes.  With a trailing edge there are three: the first window
  with the first primary timer; the first window after that timer has rescheduled
  itself; any later window, where the escape timer is gone and the primary timer alone
  enforces \<^verbatim>\<open>maxWait\<close>, due one call period ahead or at the end of the window,
  whichever comes first, or, after the first call that follows an invocation, a full
  delay after that call.  \<open>j\<close> counts the invocations forced so far.
\<close>

definition phase ::
  "('a, 't, 'r) debounce_state \<Rightarrow> int \<Rightarrow> 't \<Rightarrow> 'a list \<Rightarrow> int \<Rightarrow> (int \<times> 't option \<times> 'a list) list
    \<Rightarrow> timer list \<Rightarrow> nat option \<Rightarrow> nat option \<Rightarrow> bool" where
  "phase s tc this args p log tms to mto =
     (lastCallTime s = Some tc \<and> lastArgs s = Some args \<and> lastThis s = Some this
      \<and> lastInvokeTime s = p \<and> invocations s = log \<and> timers s = tms
      \<and> timeout s = to \<and> maxTimeout s = mto)"

definition onset ::
  "debounce_options \<Rightarrow> int \<Rightarrow> int \<Rightarrow> (nat \<Rightarrow> 't) \<Rightarrow> (nat \<Rightarrow> 'a list)
    \<Rightarrow> ('a, 't, 'r) debounce_state \<Rightarrow> bool" where
  "onset opts h W this args s =
     (phase s h (this 1) (args 1) 0 (pre_log opts this args)
        [(0, TimerExpired, 2 * h), (1, MaxTimerExpired, W)] (Some 0) (Some 1)
      \<and> 1 < nextHandle s)"

definition ramp ::
  "debounce_options \<Rightarrow> int \<Rightarrow> int \<Rightarrow> (nat \<Rightarrow> 't) \<Rightarrow> (nat \<Rightarrow> 'a list) \<Rightarrow> nat
    \<Rightarrow> ('a, 't, 'r) debounce_state \<Rightarrow> bool" where
  "ramp opts h W this args k s =
     (2 \<le> k \<and> int k * h < W
      \<and> (\<exists>hT. phase s (int k * h) (this k) (args k) 0 (pre_log opts this args)
                 [(1, MaxTimerExpired, W), (hT, TimerExpired, min (int k * h + h) W)]
                 (Some hT) (Some 1)
               \<and> hT \<noteq> 1 \<and> 1 < nextHandle s))"

definition steady ::
  "debounce_options \<Rightarrow> int \<Rightarrow> int \<Rightarrow> (nat \<Rightarrow> 't) \<Rightarrow> (nat \<Rightarrow> 'a list) \<Rightarrow> nat
    \<Rightarrow> ('a, 't, 'r) debounce_state \<Rightarrow> bool" where
  "steady opts h W this args k s =
     (\<exists>j hT D. 1 \<le> j \<and> int j * W \<le> int k * h \<and> int k * h < int j * W + W
        \<and> phase s (int k * h) (this k) (args k) (int j * W)
            (pre_log opts this args @ forced h W this args j)
            [(hT, TimerExpired, D)] (Some hT) None
        \<and> (D = min (int k * h + h) (int j * W + W)
           \<or> (int k * h < int j * W + h \<and> D = int k * h + 2 * h \<and> D \<le> int j * W + W)))"

definition cadence ::
  "debounce_options \<Rightarrow> int \<Rightarrow> int \<Rightarrow> (nat \<Rightarrow> 't) \<Rightarrow> (nat \<Rightarrow> 'a list) \<Rightarrow> nat
    \<Rightarrow> ('a, 't, 'r) debounce_state \<Rightarrow> bool" where
  "cadence opts h W this args k s =
     ((k = 1 \<and> onset opts h W this args s) \<or> ramp opts h W this args k s
      \<or> steady opts h W this args k s)"

text \<open>
  With a leading edge only, every window starts like the first: the call at \<open>j * W\<close>
  takes the leading edge and schedules both timers (\<open>opened\<close>); the calls after it find
  the primary timer, which reschedules itself from call to call, and the escape timer.
\<close>

definition opened ::
  "('a, 't, 'r) debounce_state \<Rightarrow> int \<Rightarrow> int \<Rightarrow> int \<Rightarrow> (int \<times> 't option \<times> 'a list) list \<Rightarrow> bool" where
  "opened s h W c log =
     (lastCallTime s = Some c \<and> lastArgs s = None \<and> lastThis s = None
      \<and> lastInvokeTime s = c \<and> invocations s = log
      \<and> (\<exists>x. timers s = [(x, TimerExpired, c + 2 * h), (Suc x, MaxTimerExpired, c + W)]
               \<and> timeout s = Some x \<and> maxTimeout s = Some (Suc x)
               \<and> nextHandle s = Suc (Suc x)))"

definition leading_cadence ::
  "int \<Rightarrow> int \<Rightarrow> (nat \<Rightarrow> 't) \<Rightarrow> (nat \<Rightarrow> 'a list) \<Rightarrow> nat \<Rightarrow> ('a, 't, 'r) debounce_state \<Rightarrow> bool" where
  "leading_cadence h W this args k s =
     (\<exists>j. int j * W \<le> int k * h \<and> int k * h < int j * W + W
        \<and> ((int k * h = int j * W \<and> opened s h W (int k * h) (led h W this args j))
           \<or> (int j * W < int k * h
              \<and> (\<exists>hT hM. hT \<noteq> hM \<and> hM < nextHandle s
                    \<and> (phase s (int k * h) (this k) (args k) (int j * W) (led h W this args j)
                          [(hT, TimerExpired, int k * h + h), (hM, MaxTimerExpired, int j * W + W)]
                          (Some hT) (Some hM)
                       \<or> phase s (int k * h) (this k) (args k) (int j * W) (led h W this args j)
                          [(hM, MaxTimerExpired, int j * W + W), (hT, TimerExpired, int k * h + h)]
                          (Some hT) (Some hM))))))"

text \<open>
  A timer queue as the host keeps it: the handles are distinct and below the host's
  counter, the handle in \<^verbatim>\<open>timeout\<close> is that of a scheduled primary timer, and
  pending arguments come with the time of their call.  Such a queue all of which is due
  by \<open>T\<close>.  And what a state \<open>s\<close> is to the state \<open>s0\<close> it came from by timers
  firing, \<open>s0\<close> holding pending arguments: either no trailing edge has run yet and the
  pending call is untouched, or one has, and the pending call is gone, applied once at the
  time now in \<^verbatim>\<open>lastInvokeTime\<close> if \<^verbatim>\<open>trailing\<close> and dropped otherwise.
\<close>

definition sound_queue :: "('a, 't, 'r) debounce_state \<Rightarrow> bool" where
  "sound_queue s =
     (distinct (map fst (timers s))
      \<and> (\<forall>tm \<in> set (timers s). fst tm < nextHandle s)
      \<and> (\<forall>h. timeout s = Some h \<longrightarrow> (\<exists>d. (h, TimerExpired, d) \<in> set (timers s)))
      \<and> (lastArgs s \<noteq> None \<longrightarrow> lastCallTime s \<noteq> None))"

definition live_queue :: "int \<Rightarrow> ('a, 't, 'r) debounce_state \<Rightarrow> bool" where
  "live_queue T s = (sound_queue s \<and> (\<forall>tm \<in> set (timers s). snd (snd tm) \<le> T))"

definition settling ::
  "debounce_options \<Rightarrow> ('a, 't, 'r) func \<Rightarrow> ('a, 't, 'r) debounce_state
    \<Rightarrow> ('a, 't, 'r) debounce_state \<Rightarrow> bool" where
  "settling opts func s0 s =
     (lastCallTime s = lastCallTime s0
      \<and> ((lastArgs s = lastArgs s0 \<and> lastThis s = lastThis s0 \<and> result s = result s0
           \<and> invocations s = invocations s0 \<and> lastInvokeTime s = lastInvokeTime s0
           \<and> timeout s \<noteq> None)
          \<or> (lastArgs s = None \<and> lastThis s = None \<and> maxTimeout s = None
              \<and> (if trailing opts
                  then result s = result_after (func (lastThis s0) (args_of (lastArgs s0))) (result s0)
                     \<and> invocations s
                         = invocations s0 @ [(lastInvokeTime s, lastThis s0, args_of (lastArgs s0))]
                  else result s = result s0 \<and> invocations s = invocations s0
                     \<and> lastInvokeTime s = lastInvokeTime s0))))"

text \<open>
  A \<^verbatim>\<open>flush()\<close> event; and a state that holds at most one timer, the primary one whose
  handle is in \<^verbatim>\<open>timeout\<close>.
\<close>

fun is_flush :: "('a, 't) event \<Rightarrow> bool" where
  "is_flush (Flush now) = True"
| "is_flush ev = False"

definition one_timer :: "('a, 't, 'r) debounce_state \<Rightarrow> bool" where
  "one_timer s =
     (maxTimeout s = None
      \<and> (case timeout s of
            None \<Rightarrow> timers s = []
          | Some h \<Rightarrow> (case timers s of [tm] \<Rightarrow> fst tm = h \<and> fst (snd tm) = TimerExpired | _ \<Rightarrow> False)))"

text \<open>The work the timers due by \<open>t\<close> still stand for; it shrinks with every firing.\<close>

definition backlog :: "int \<Rightarrow> timer list \<Rightarrow> nat" where
  "backlog t tms =
     sum_list (map (\<lambda>tm. if snd (snd tm) \<le> t then nat (t - snd (snd tm)) + 1 else 0) tms)"

section \<open>Termination of the ideal host\<close>

lemma backlog_simps [simp]:
  "backlog t [] = 0"
  "backlog t (tm # tms) = (if snd (snd tm) \<le> t then nat (t - snd (snd tm)) + 1 else 0) + backlog t tms"
  "backlog t (xs @ ys) = backlog t xs + backlog t ys"
  by (simp_all add: backlog_def)

lemma backlog_filter_le: "backlog t (filter P tms) \<le> backlog t tms"
  by (induction tms) auto

lemma backlog_filter_mem:
  "tm \<in> set tms \<Longrightarrow> \<not> P tm \<Longrightarrow> snd (snd tm) \<le> t
   \<Longrightarrow> backlog t (filter P tms) + nat (t - snd (snd tm)) + 1 \<le> backlog t tms"
proof (induction tms)
  case Nil
  then show ?case by simp
next
  case (Cons x xs)
  show ?case
  proof (cases "x = tm")
    case True
    have "backlog t (filter P xs) \<le> backlog t xs" by (rule backlog_filter_le)
    with True Cons.prems show ?thesis by simp
  next
    case False
    with Cons have "backlog t (filter P xs) + nat (t - snd (snd tm)) + 1 \<le> backlog t xs" by simp
    then show ?thesis by simp
  qed
qed

lemma earliest_mem: "earliest tms = Some tm \<Longrightarrow> tm \<in> set tms"
  by (induction tms arbitrary: tm) (auto split: option.splits if_splits)

lemma timers_invokeFunc [simp]: "timers (fst (invokeFunc func time s)) = timers s"
  by (simp add: invokeFunc_def Let_def split: res.splits)

lemma timers_trailingEdge:
  "timers (fst (trailingEdge opts func time s)) =
     (case maxTimeout s of None \<Rightarrow> timers s | Some m \<Rightarrow> filter (\<lambda>tm. fst tm \<noteq> m) (timers s))"
  by (simp add: trailingEdge_def clearTimeout_def Let_def split: option.splits)

lemma backlog_trailingEdge: "backlog t (timers (fst (trailingEdge opts func time s))) \<le> backlog t (timers s)"
  by (simp add: timers_trailingEdge backlog_filter_le split: option.splits)

lemma remainingWait_pos: "\<not> shouldInvoke opts time s \<Longrightarrow> 0 < remainingWait opts time s"
  by (auto simp: shouldInvoke_def remainingWait_def Let_def split: option.splits)

lemma timers_timerExpired:
  "timers (fst (timerExpired opts func now s)) =
     (if shouldInvoke opts now s then timers (fst (trailingEdge opts func now s))
      else timers s @ [(nextHandle s, TimerExpired, now + max 0 (remainingWait opts now s))])"
  by (simp add: timerExpired_def setTimeout_def Let_def split: prod.splits res.splits)

lemma timers_maxTimerExpired:
  "timers (fst (maxTimerExpired opts func now s)) =
     (if lastArgs s \<noteq> None \<and> trailing opts then timers (fst (trailingEdge opts func now s))
      else timers s)"
  by (simp add: maxTimerExpired_def Let_def split: prod.splits res.splits)

lemma backlog_callback:
  "backlog t (timers (fst (timerExpired opts func now s))) \<le> backlog t (timers s) + nat (t - now)"
  "backlog t (timers (fst (maxTimerExpired opts func now s))) \<le> backlog t (timers s) + nat (t - now)"
proof -
  have le: "backlog t (timers (fst (trailingEdge opts func now s))) \<le> backlog t (timers s) + nat (t - now)"
    using backlog_trailingEdge [of t opts func now s] by linarith
  show "backlog t (timers (fst (timerExpired opts func now s))) \<le> backlog t (timers s) + nat (t - now)"
  proof (cases "shouldInvoke opts now s")
    case True
    then show ?thesis using le by (simp add: timers_timerExpired)
  next
    case False
    then have "0 < remainingWait opts now s" by (rule remainingWait_pos)
    with False show ?thesis by (auto simp add: timers_timerExpired)
  qed
  show "backlog t (timers (fst (maxTimerExpired opts func now s))) \<le> backlog t (timers s) + nat (t - now)"
    using le by (simp add: timers_maxTimerExpired)
qed

lemma backlog_dispatch:
  assumes "tm \<in> set (timers s)" and "snd (snd tm) \<le> t"
  shows "backlog t (timers (dispatch opts func (snd (snd tm)) tm s)) < backlog t (timers s)"
proof -
  let ?s1 = "clearTimeout (fst tm) s"
  have "backlog t (timers ?s1) + nat (t - snd (snd tm)) + 1 \<le> backlog t (timers s)"
    using assms backlog_filter_mem [of tm "timers s" "\<lambda>x. fst x \<noteq> fst tm" t]
    by (simp add: clearTimeout_def)
  moreover have "backlog t (timers (dispatch opts func (snd (snd tm)) tm s))
                   \<le> backlog t (timers ?s1) + nat (t - snd (snd tm))"
    using backlog_callback [of t opts func "snd (snd tm)" ?s1]
    by (cases "fst (snd tm)") (simp_all add: dispatch_def Let_def)
  ultimately show ?thesis by linarith
qed

termination advance
  by (relation "measure (\<lambda>(opts, func, t, s). backlog t (timers s))")
     (auto dest: earliest_mem intro: backlog_dispatch)

declare advance.simps [simp del]

lemma advance_idle: "earliest (timers s) = None \<Longrightarrow> advance opts func t s = s"
  by (simp add: advance.simps)

lemma advance_wait:
  "earliest (timers s) = Some tm \<Longrightarrow> t < snd (snd tm) \<Longrightarrow> advance opts func t s = s"
  by (simp add: advance.simps)

lemma advance_fire:
  "earliest (timers s) = Some tm \<Longrightarrow> snd (snd tm) \<le> t
   \<Longrightarrow> advance opts func t s = advance opts func t (dispatch opts func (snd (snd tm)) tm s)"
  by (subst advance.simps) simp

section \<open>Closed forms of the state changes\<close>

subsection \<open>What the functions of throttle.ts do to the state\<close>

lemma fst_invokeFunc_thr:
  "fst (invokeFunc_thr func time s) =
     s\<lparr>lastArgs := None, lastThis := None, lastInvokeTime := time,
       invocations := invocations s @ [(time, lastThis s, args_of (lastArgs s))],
       result := result_after (func (lastThis s) (args_of (lastArgs s))) (result s)\<rparr>"
  by (simp add: invokeFunc_thr_def args_of_def result_after_def Let_def split: res.splits)

lemma fst_leadingEdge_thr:
  "fst (leadingEdge_thr opts func time s) =
     (let s3 = s\<lparr>lastInvokeTime := time,
                 timers := timers s @ [(nextHandle s, TimerExpired, time + max 0 (wait opts))],
                 nextHandle := Suc (nextHandle s), timeout := Some (nextHandle s)\<rparr>
      in if leading opts then fst (invokeFunc_thr func time s3) else s3)"
  by (simp add: leadingEdge_thr_def setTimeout_def Let_def)

lemma fst_trailingEdge_thr:
  "fst (trailingEdge_thr opts func time s) =
     (if trailing opts \<and> lastArgs s \<noteq> None then fst (invokeFunc_thr func time (s\<lparr>timeout := None\<rparr>))
      else s\<lparr>timeout := None, lastArgs := None, lastThis := None\<rparr>)"
  by (auto simp add: trailingEdge_thr_def Let_def)

lemma fst_timerExpired_thr:
  "fst (timerExpired_thr opts func now s) =
     (if shouldInvoke_thr opts now s then fst (trailingEdge_thr opts func now s)
      else s\<lparr>timers := timers s @ [(nextHandle s, TimerExpired, now + max 0 (remainingWait_thr opts now s))],
             nextHandle := Suc (nextHandle s), timeout := Some (nextHandle s)\<rparr>)"
  by (simp add: timerExpired_thr_def setTimeout_def Let_def split: prod.splits res.splits)

lemma fst_throttled:
  "fst (throttled opts func now this args s) =
     (let s1 = s\<lparr>lastArgs := Some args, lastThis := Some this, lastCallTime := Some now\<rparr>
      in if timeout s = None then
           (if shouldInvoke_thr opts now s then fst (leadingEdge_thr opts func now s1)
            else s1\<lparr>timers := timers s @ [(nextHandle s, TimerExpired, now + max 0 (wait opts))],
                    nextHandle := Suc (nextHandle s), timeout := Some (nextHandle s)\<rparr>)
         else s1)"
  by (simp add: throttled_def setTimeout_def Let_def)

lemma fst_flush_thr:
  "fst (flush_thr opts func now s) =
     (if timeout s = None then s else fst (trailingEdge_thr opts func now s))"
  by (simp add: flush_thr_def)

lemma dispatch_thr_eq:
  "dispatch_thr opts func now tm s =
     (case fst (snd tm) of
        TimerExpired \<Rightarrow>
          fst (timerExpired_thr opts func now (s\<lparr>timers := filter (\<lambda>x. fst x \<noteq> fst tm) (timers s)\<rparr>))
      | MaxTimerExpired \<Rightarrow> s\<lparr>timers := filter (\<lambda>x. fst x \<noteq> fst tm) (timers s)\<rparr>)"
  by (simp add: dispatch_thr_def clearTimeout_def Let_def)

lemmas thr_fst = fst_invokeFunc_thr fst_leadingEdge_thr fst_trailingEdge_thr fst_timerExpired_thr
  fst_throttled fst_flush_thr dispatch_thr_eq

subsection \<open>What the functions of debounce.ts do to the state\<close>

lemma fst_invokeFunc:
  "fst (invokeFunc func time s) =
     s\<lparr>lastArgs := None, lastThis := None, lastInvokeTime := time,
       invocations := invocations s @ [(time, lastThis s, args_of (lastArgs s))],
       result := result_after (func (lastThis s) (args_of (lastArgs s))) (result s)\<rparr>"
  by (simp add: invokeFunc_def args_of_def result_after_def Let_def split: res.splits)

lemma fst_leadingEdge:
  "fst (leadingEdge opts func time s) =
     (let s3 = s\<lparr>lastInvokeTime := time,
                 timers := timers s @ [(nextHandle s, TimerExpired, time + max 0 (wait opts))],
                 nextHandle := Suc (nextHandle s), timeout := Some (nextHandle s)\<rparr>;
          s4 = (case maxWait opts of
                  None \<Rightarrow> s3
                | Some mw \<Rightarrow>
                    s3\<lparr>timers := timers s3 @ [(Suc (nextHandle s), MaxTimerExpired, time + max 0 mw)],
                       nextHandle := Suc (Suc (nextHandle s)),
                       maxTimeout := Some (Suc (nextHandle s))\<rparr>)
      in if leading opts then fst (invokeFunc func time s4) else s4)"
  by (simp add: leadingEdge_def setTimeout_def Let_def split: option.splits)

lemma fst_trailingEdge:
  "fst (trailingEdge opts func time s) =
     (let s2 = (case maxTimeout s of
                  None \<Rightarrow> s\<lparr>timeout := None\<rparr>
                | Some m \<Rightarrow> s\<lparr>timeout := None,
                               timers := filter (\<lambda>tm. fst tm \<noteq> m) (timers s),
                               maxTimeout := None\<rparr>)
      in if trailing opts \<and> lastArgs s \<noteq> None then fst (invokeFunc func time s2)
         else s2\<lparr>lastArgs := None, lastThis := None\<rparr>)"
  by (auto simp add: trailingEdge_def clearTimeout_def Let_def split: option.splits)

lemma fst_timerExpired:
  "fst (timerExpired opts func now s) =
     (if shouldInvoke opts now s then fst (trailingEdge opts func now s)
      else s\<lparr>timers := timers s @ [(nextHandle s, TimerExpired, now + max 0 (remainingWait opts now s))],
             nextHandle := Suc (nextHandle s), timeout := Some (nextHandle s)\<rparr>)"
  by (simp add: timerExpired_def setTimeout_def Let_def split: prod.splits res.splits)

lemma fst_maxTimerExpired:
  "fst (maxTimerExpired opts func now s) =
     (if lastArgs s \<noteq> None \<and> trailing opts then fst (trailingEdge opts func now s) else s)"
  by (simp add: maxTimerExpired_def split: prod.splits res.splits)

lemma fst_flush:
  "fst (flush opts func now s) =
     (if timeout s = None \<and> maxTimeout s = None then s else fst (trailingEdge opts func now s))"
  by (simp add: flush_def)

lemma fst_debounced:
  "fst (debounced opts func now this args s) =
     (let s1 = s\<lparr>lastArgs := Some args, lastThis := Some this, lastCallTime := Some now\<rparr>;
          s2 = s1\<lparr>timers := timers s @ [(nextHandle s, TimerExpired, now + max 0 (wait opts))],
                  nextHandle := Suc (nextHandle s), timeout := Some (nextHandle s)\<rparr>
      in if timeout s = None then
           (if shouldInvoke opts now s then fst (leadingEdge opts func now s1) else s2)
         else if shouldInvoke opts now s \<and> maxWait opts \<noteq> None then fst (invokeFunc func now s2)
         else s1)"
  by (simp add: debounced_def setTimeout_def Let_def)

lemma dispatch_eq:
  "dispatch opts func now tm s =
     (case fst (snd tm) of
        TimerExpired \<Rightarrow>
          fst (timerExpired opts func now (s\<lparr>timers := filter (\<lambda>x. fst x \<noteq> fst tm) (timers s)\<rparr>))
      | MaxTimerExpired \<Rightarrow>
          fst (maxTimerExpired opts func now (s\<lparr>timers := filter (\<lambda>x. fst x \<noteq> fst tm) (timers s)\<rparr>)))"
  by (simp add: dispatch_def clearTimeout_def Let_def)

lemmas deb_fst = fst_invokeFunc fst_leadingEdge fst_trailingEdge fst_timerExpired
  fst_maxTimerExpired fst_flush fst_debounced dispatch_eq

subsection \<open>The wrapped function's outcome reaches the state through \<open>result\<close> only\<close>

lemma res_invokeFunc:
  "(fst (invokeFunc func time s))\<lparr>result := r\<rparr> = (fst (invokeFunc g time s))\<lparr>result := r\<rparr>"
  by (simp add: fst_invokeFunc)

lemma res_leadingEdge:
  "(fst (leadingEdge opts func time s))\<lparr>result := r\<rparr> = (fst (leadingEdge opts g time s))\<lparr>result := r\<rparr>"
  by (simp add: fst_leadingEdge Let_def res_invokeFunc)

lemma res_trailingEdge:
  "(fst (trailingEdge opts func time s))\<lparr>result := r\<rparr> = (fst (trailingEdge opts g time s))\<lparr>result := r\<rparr>"
  by (auto simp add: fst_trailingEdge Let_def res_invokeFunc)

lemma res_dispatch:
  "(dispatch opts func now tm s)\<lparr>result := r\<rparr> = (dispatch opts g now tm s)\<lparr>result := r\<rparr>"
  by (simp add: dispatch_eq fst_timerExpired fst_maxTimerExpired res_trailingEdge split: callback.splits)

lemma res_step:
  "(step opts func s ev)\<lparr>result := r\<rparr> = (step opts g s ev)\<lparr>result := r\<rparr>"
  by (cases ev)
     (simp_all add: fire_def res_dispatch fst_debounced fst_flush res_leadingEdge res_invokeFunc
        res_trailingEdge Let_def split: option.splits)

lemma res_invokeFunc_thr:
  "(fst (invokeFunc_thr func time s))\<lparr>result := r\<rparr> = (fst (invokeFunc_thr g time s))\<lparr>result := r\<rparr>"
  by (simp add: fst_invokeFunc_thr)

lemma res_leadingEdge_thr:
  "(fst (leadingEdge_thr opts func time s))\<lparr>result := r\<rparr> = (fst (leadingEdge_thr opts g time s))\<lparr>result := r\<rparr>"
  by (simp add: fst_leadingEdge_thr Let_def res_invokeFunc_thr)

lemma res_trailingEdge_thr:
  "(fst (trailingEdge_thr opts func time s))\<lparr>result := r\<rparr> = (fst (trailingEdge_thr opts g time s))\<lparr>result := r\<rparr>"
  by (auto simp add: fst_trailingEdge_thr Let_def res_invokeFunc_thr)

lemma res_dispatch_thr:
  "(dispatch_thr opts func now tm s)\<lparr>result := r\<rparr> = (dispatch_thr opts g now tm s)\<lparr>result := r\<rparr>"
  by (simp add: dispatch_thr_eq fst_timerExpired_thr res_trailingEdge_thr split: callback.splits)

lemma res_step_thr:
  "(step_thr opts func s ev)\<lparr>result := r\<rparr> = (step_thr opts g s ev)\<lparr>result := r\<rparr>"
  by (cases ev)
     (simp_all add: fire_thr_def res_dispatch_thr fst_throttled fst_flush_thr res_leadingEdge_thr
        res_trailingEdge_thr Let_def split: option.splits)

subsection \<open>Runs\<close>

lemma run_Nil [simp]: "run opts func s [] = s"
  by (simp add: run_def)

lemma run_Cons [simp]: "run opts func s (ev # evs) = run opts func (step opts func s ev) evs"
  by (simp add: run_def)

lemma run_append: "run opts func s (xs @ ys) = run opts func (run opts func s xs) ys"
  by (simp add: run_def)

lemma run_thr_Nil [simp]: "run_thr opts func s [] = s"
  by (simp add: run_thr_def)

lemma run_thr_Cons [simp]:
  "run_thr opts func s (ev # evs) = run_thr opts func (step_thr opts func s ev) evs"
  by (simp add: run_thr_def)

lemma run_thr_append: "run_thr opts func s (xs @ ys) = run_thr opts func (run_thr opts func s xs) ys"
  by (simp add: run_thr_def)

subsection \<open>Invocations with both edges off\<close>

lemma invocations_trailingEdge_off:
  "\<not> trailing opts \<Longrightarrow> invocations (fst (trailingEdge opts func time s)) = invocations s"
  by (simp add: fst_trailingEdge Let_def split: option.splits)

lemma invocations_dispatch_off:
  "\<not> trailing opts \<Longrightarrow> invocations (dispatch opts func now tm s) = invocations s"
  by (simp add: dispatch_eq fst_timerExpired fst_maxTimerExpired invocations_trailingEdge_off
      split: callback.splits)

lemma invocations_step_off:
  assumes "\<not> leading opts" and "\<not> trailing opts" and "maxWait opts = None"
  shows "invocations (step opts func s ev) = invocations s"
proof (cases ev)
  case (Call now this args)
  with assms show ?thesis by (simp add: fst_debounced fst_leadingEdge Let_def)
next
  case (Fire now h)
  with assms show ?thesis by (simp add: fire_def invocations_dispatch_off split: option.splits)
next
  case Cancel
  then show ?thesis by (simp add: cancel_def clearTimeout_def Let_def split: option.splits)
next
  case (Flush now)
  with assms show ?thesis by (simp add: fst_flush invocations_trailingEdge_off)
qed

subsection \<open>How \<open>lastInvokeTime\<close> moves\<close>

lemma lit_invokeFunc [simp]: "lastInvokeTime (fst (invokeFunc func time s)) = time"
  by (simp add: fst_invokeFunc)

lemma lit_trailingEdge:
  "lastInvokeTime (fst (trailingEdge opts func time s)) =
     (if trailing opts \<and> lastArgs s \<noteq> None then time else lastInvokeTime s)"
  by (auto simp add: fst_trailingEdge Let_def split: option.splits)

lemma lit_dispatch:
  "lastInvokeTime (dispatch opts func now tm s) = now
   \<or> lastInvokeTime (dispatch opts func now tm s) = lastInvokeTime s"
  by (simp add: dispatch_eq fst_timerExpired fst_maxTimerExpired lit_trailingEdge
      split: callback.splits)

lemma lit_step:
  "lastInvokeTime (step opts func s ev) = lastInvokeTime s
   \<or> event_time ev = Some (lastInvokeTime (step opts func s ev))
   \<or> (is_cancel ev \<and> lastInvokeTime (step opts func s ev) = 0)"
proof (cases ev)
  case (Call now this args)
  then show ?thesis by (simp add: fst_debounced fst_leadingEdge Let_def split: option.splits)
next
  case (Fire now h)
  show ?thesis
  proof (cases "find (\<lambda>tm. fst tm = h) (timers s)")
    case None
    with Fire show ?thesis by (simp add: fire_def)
  next
    case (Some tm)
    with Fire lit_dispatch [of opts func now tm s] show ?thesis by (auto simp add: fire_def)
  qed
next
  case Cancel
  then show ?thesis by (simp add: cancel_def Let_def)
next
  case (Flush now)
  then show ?thesis by (simp add: fst_flush lit_trailingEdge)
qed

lemma lit_invokeFunc_thr [simp]: "lastInvokeTime (fst (invokeFunc_thr func time s)) = time"
  by (simp add: fst_invokeFunc_thr)

lemma lit_trailingEdge_thr:
  "lastInvokeTime (fst (trailingEdge_thr opts func time s)) =
     (if trailing opts \<and> lastArgs s \<noteq> None then time else lastInvokeTime s)"
  by (auto simp add: fst_trailingEdge_thr Let_def)

lemma lit_dispatch_thr:
  "lastInvokeTime (dispatch_thr opts func now tm s) = now
   \<or> lastInvokeTime (dispatch_thr opts func now tm s) = lastInvokeTime s"
  by (simp add: dispatch_thr_eq fst_timerExpired_thr lit_trailingEdge_thr split: callback.splits)

lemma lit_step_thr:
  "lastInvokeTime (step_thr opts func s ev) = lastInvokeTime s
   \<or> event_time ev = Some (lastInvokeTime (step_thr opts func s ev))
   \<or> (is_cancel ev \<and> lastInvokeTime (step_thr opts func s ev) = 0)"
proof (cases ev)
  case (Call now this args)
  then show ?thesis by (simp add: fst_throttled fst_leadingEdge_thr Let_def)
next
  case (Fire now h)
  show ?thesis
  proof (cases "find (\<lambda>tm. fst tm = h) (timers s)")
    case None
    with Fire show ?thesis by (simp add: fire_thr_def)
  next
    case (Some tm)
    with Fire lit_dispatch_thr [of opts func now tm s] show ?thesis by (auto simp add: fire_thr_def)
  qed
next
  case Cancel
  then show ?thesis by (simp add: cancel_thr_def Let_def)
next
  case (Flush now)
  then show ?thesis by (simp add: fst_flush_thr lit_trailingEdge_thr)
qed

lemma clock_from_append:
  "clock_from t (xs @ ys) = (clock_from t xs \<and> clock_from (clock_after t xs) ys)"
  by (induction xs arbitrary: t) (auto split: option.splits)

text \<open>
  The two facts below are stated for any step function that changes \<open>lastInvokeTime\<close>
  as \<open>lit_step\<close> says, so that they serve both governors.
\<close>

lemma lit_bounded_gen:
  fixes stp :: "'s \<Rightarrow> ('a, 't) event \<Rightarrow> 's" and lit :: "'s \<Rightarrow> int"
  assumes stp: "\<And>s ev. lit (stp s ev) = lit s \<or> event_time ev = Some (lit (stp s ev))
                    \<or> (is_cancel ev \<and> lit (stp s ev) = 0)"
  shows "0 \<le> t \<Longrightarrow> lit s \<le> t \<Longrightarrow> clock_from t evs
         \<Longrightarrow> lit (foldl stp s evs) \<le> clock_after t evs \<and> 0 \<le> clock_after t evs"
proof (induction evs arbitrary: s t)
  case Nil
  then show ?case by simp
next
  case (Cons ev evs)
  let ?t' = "case event_time ev of None \<Rightarrow> t | Some t' \<Rightarrow> t'"
  have t': "t \<le> ?t'" and c: "clock_from ?t' evs"
    using Cons.prems(3) by (auto split: option.splits)
  have "lit (stp s ev) \<le> ?t'"
    using stp [of s ev] Cons.prems(1,2) t' by (auto split: option.splits)
  moreover have "0 \<le> ?t'" using Cons.prems(1) t' by linarith
  ultimately show ?case using Cons.IH [of ?t' "stp s ev"] c by simp
qed

lemma lit_mono_gen:
  fixes stp :: "'s \<Rightarrow> ('a, 't) event \<Rightarrow> 's" and lit :: "'s \<Rightarrow> int"
  assumes stp: "\<And>s ev. lit (stp s ev) = lit s \<or> event_time ev = Some (lit (stp s ev))
                    \<or> (is_cancel ev \<and> lit (stp s ev) = 0)"
  shows "lit s \<le> t \<Longrightarrow> clock_from t evs \<Longrightarrow> no_cancel evs \<Longrightarrow> lit s \<le> lit (foldl stp s evs)"
proof (induction evs arbitrary: s t)
  case Nil
  then show ?case by simp
next
  case (Cons ev evs)
  from Cons.prems(3) have nc: "\<not> is_cancel ev" "no_cancel evs" by (simp_all add: no_cancel_def)
  then obtain t' where et: "event_time ev = Some t'" by (cases ev) simp_all
  with Cons.prems(2) have t': "t \<le> t'" and c: "clock_from t' evs" by simp_all
  have 1: "lit s \<le> lit (stp s ev)" and 2: "lit (stp s ev) \<le> t'"
    using stp [of s ev] nc(1) et Cons.prems(1) t' by auto
  from Cons.IH [OF 2 c nc(2)] 1 show ?case by simp
qed

subsection \<open>Calls while a timer is pending\<close>

lemma calls_Nil [simp]: "calls [] = []"
  by (simp add: calls_def)

lemma calls_Cons [simp]: "calls ((t, this, args) # cs) = Call t this args # calls cs"
  by (simp add: calls_def)

lemma call_while_pending:
  assumes "maxWait opts = None" and "timeout s \<noteq> None"
  shows "step opts func s (Call t this args) =
           s\<lparr>lastArgs := Some args, lastThis := Some this, lastCallTime := Some t\<rparr>"
  using assms by (auto simp add: fst_debounced Let_def)

lemma calls_while_pending:
  assumes "maxWait opts = None" and "timeout s \<noteq> None"
  shows "\<exists>a th t. run opts func s (calls cs) = s\<lparr>lastArgs := a, lastThis := th, lastCallTime := t\<rparr>"
  using assms(2)
proof (induction cs arbitrary: s)
  case Nil
  have "s = s\<lparr>lastArgs := lastArgs s, lastThis := lastThis s, lastCallTime := lastCallTime s\<rparr>"
    by simp
  then show ?case by (metis calls_Nil run_Nil)
next
  case (Cons c cs)
  obtain t this args where c: "c = (t, this, args)" by (cases c) auto
  let ?s1 = "s\<lparr>lastArgs := Some args, lastThis := Some this, lastCallTime := Some t\<rparr>"
  have "timeout ?s1 \<noteq> None" using Cons.prems by simp
  from Cons.IH [OF this] obtain a th t' where
    "run opts func ?s1 (calls cs) = ?s1\<lparr>lastArgs := a, lastThis := th, lastCallTime := t'\<rparr>"
    by blast
  then have "run opts func s (calls (c # cs)) = s\<lparr>lastArgs := a, lastThis := th, lastCallTime := t'\<rparr>"
    using call_while_pending [OF assms(1) Cons.prems] by (simp add: c)
  then show ?case by blast
qed

lemma cancel_forgets_call:
  "cancel (s\<lparr>lastArgs := a, lastThis := th, lastCallTime := t\<rparr>) = cancel s"
  by (simp add: cancel_def clearTimeout_def Let_def split: option.splits)

lemma call_before_due:
  assumes "timeout s \<noteq> None" and "lastCallTime s = Some t" and "lastInvokeTime s = t0" and "t0 \<le> t"
      and "before_due opts t0 t ((t', this, args) # cs)"
  shows "step opts func s (Call t' this args) =
           s\<lparr>lastArgs := Some args, lastThis := Some this, lastCallTime := Some t'\<rparr>"
  using assms
  by (auto simp add: fst_debounced shouldInvoke_def orZero_def Let_def split: option.splits)

lemma calls_before_due:
  assumes "timeout s \<noteq> None" and "lastCallTime s = Some t" and "lastInvokeTime s = t0" and "t0 \<le> t"
      and "before_due opts t0 t cs"
  shows "\<exists>a th t'. run opts func s (calls cs) = s\<lparr>lastArgs := a, lastThis := th, lastCallTime := t'\<rparr>"
  using assms
proof (induction cs arbitrary: s t)
  case Nil
  have "s = s\<lparr>lastArgs := lastArgs s, lastThis := lastThis s, lastCallTime := lastCallTime s\<rparr>"
    by simp
  then show ?case by (metis calls_Nil run_Nil)
next
  case (Cons c cs)
  obtain t' this args where c: "c = (t', this, args)" by (cases c) auto
  let ?s1 = "s\<lparr>lastArgs := Some args, lastThis := Some this, lastCallTime := Some t'\<rparr>"
  from Cons.prems(5) have b: "t \<le> t'" "before_due opts t0 t' cs" by (simp_all add: c)
  have st: "step opts func s (Call t' this args) = ?s1"
    using call_before_due [OF Cons.prems(1-4)] Cons.prems(5) unfolding c by blast
  have "\<exists>a th u. run opts func ?s1 (calls cs) = ?s1\<lparr>lastArgs := a, lastThis := th, lastCallTime := u\<rparr>"
    by (rule Cons.IH [where t = t']) (use Cons.prems b in simp_all)
  then obtain a th u where
    "run opts func ?s1 (calls cs) = ?s1\<lparr>lastArgs := a, lastThis := th, lastCallTime := u\<rparr>"
    by blast
  then have "run opts func s (calls (c # cs)) = s\<lparr>lastArgs := a, lastThis := th, lastCallTime := u\<rparr>"
    using st by (simp add: c)
  then show ?case by blast
qed

lemma shouldInvoke_timers [simp]: "shouldInvoke opts time (s\<lparr>timers := tms\<rparr>) = shouldInvoke opts time s"
  by (simp add: shouldInvoke_def)

subsection \<open>A burst of calls with the default options\<close>

lemma in_burstE:
  assumes "in_burst opts s tk this args"
  obtains h due where "lastCallTime s = Some tk" "lastArgs s = Some args" "lastThis s = Some this"
    "maxTimeout s = None" "invocations s = []" "timers s = [(h, TimerExpired, due)]"
    "timeout s = Some h" "tk \<le> due" "due \<le> tk + wait opts"
  using assms unfolding in_burst_def by blast

lemma burst_first:
  assumes "0 \<le> wait opts" and "\<not> leading opts" and "maxWait opts = None"
  shows "in_burst opts (fst (debounced opts func t this args (advance opts func t debounce_init)))
           t this args"
proof -
  have "advance opts func t debounce_init = (debounce_init :: ('a, 'b, 'c) debounce_state)"
    by (rule advance_idle) (simp add: debounce_init_def)
  then show ?thesis
    using assms
    by (simp add: in_burst_def fst_debounced fst_leadingEdge shouldInvoke_def debounce_init_def Let_def)
qed

lemma burst_dispatch_early:
  assumes "lastCallTime s = Some tk" and "maxWait opts = None"
      and "tk \<le> due" and "due < tk + wait opts"
  shows "dispatch opts func due (h, TimerExpired, due) s =
           s\<lparr>timers := filter (\<lambda>x. fst x \<noteq> h) (timers s) @ [(nextHandle s, TimerExpired, tk + wait opts)],
             nextHandle := Suc (nextHandle s), timeout := Some (nextHandle s)\<rparr>"
  using assms
  by (simp add: dispatch_eq fst_timerExpired shouldInvoke_def remainingWait_def orZero_def)

lemma burst_dispatch_due:
  assumes "lastCallTime s = Some tk" and "lastArgs s = Some args" and "maxTimeout s = None"
      and "trailing opts"
  shows "dispatch opts func (tk + wait opts) (h, TimerExpired, tk + wait opts) s =
           s\<lparr>timers := filter (\<lambda>x. fst x \<noteq> h) (timers s), timeout := None,
             lastArgs := None, lastThis := None, lastInvokeTime := tk + wait opts,
             invocations := invocations s @ [(tk + wait opts, lastThis s, args)],
             result := result_after (func (lastThis s) args) (result s)\<rparr>"
  using assms
  by (simp add: dispatch_eq fst_timerExpired fst_trailingEdge fst_invokeFunc shouldInvoke_def
      orZero_def args_of_def Let_def)

lemma burst_advance:
  assumes b: "in_burst opts s tk this args" and "maxWait opts = None" and "t < tk + wait opts"
  shows "in_burst opts (advance opts func t s) tk this args
       \<and> (\<forall>tm \<in> set (timers (advance opts func t s)). t < snd (snd tm))"
proof -
  from b obtain h due where s: "lastCallTime s = Some tk" "lastArgs s = Some args"
    "lastThis s = Some this" "maxTimeout s = None" "invocations s = []"
    "timers s = [(h, TimerExpired, due)]" "timeout s = Some h" "tk \<le> due" "due \<le> tk + wait opts"
    by (rule in_burstE)
  show ?thesis
  proof (cases "due \<le> t")
    case False
    then have "advance opts func t s = s"
      using s(6) by (simp add: advance_wait)
    with b False s(6) show ?thesis by simp
  next
    case True
    let ?s1 = "s\<lparr>timers := [(nextHandle s, TimerExpired, tk + wait opts)],
                  nextHandle := Suc (nextHandle s), timeout := Some (nextHandle s)\<rparr>"
    from True assms(3) have lt: "due < tk + wait opts" by linarith
    have "dispatch opts func due (h, TimerExpired, due) s = ?s1"
      using burst_dispatch_early [OF s(1) assms(2) s(8) lt, of func h] s(6) by simp
    then have "advance opts func t s = advance opts func t ?s1"
      using advance_fire [of s "(h, TimerExpired, due)" t opts func] s(6) True by simp
    also have "\<dots> = ?s1"
      using assms(3) by (simp add: advance_wait)
    finally have eq: "advance opts func t s = ?s1" .
    show ?thesis
      unfolding eq using s assms(3) by (simp add: in_burst_def)
  qed
qed

lemma burst_call:
  assumes b: "in_burst opts s tk this args" and "maxWait opts = None"
      and "\<forall>tm \<in> set (timers s). t < snd (snd tm)" and "tk \<le> t"
  shows "in_burst opts (fst (debounced opts func t this' args' s)) t this' args'"
proof -
  from b obtain h due where s: "lastCallTime s = Some tk" "lastArgs s = Some args"
    "lastThis s = Some this" "maxTimeout s = None" "invocations s = []"
    "timers s = [(h, TimerExpired, due)]" "timeout s = Some h" "tk \<le> due" "due \<le> tk + wait opts"
    by (rule in_burstE)
  from assms(3) s(6) have "t < due" by simp
  with s assms(2,4) show ?thesis
    by (simp add: in_burst_def fst_debounced Let_def)
qed

lemma burst_serve:
  assumes "maxWait opts = None"
  shows "in_burst opts s tk this args \<Longrightarrow> spaced (wait opts) tk cs
         \<Longrightarrow> last ((tk, this, args) # cs) = (tn, thisn, argsn)
         \<Longrightarrow> in_burst opts (serve opts func s cs) tn thisn argsn"
proof (induction cs arbitrary: s tk this args)
  case Nil
  then show ?case by simp
next
  case (Cons c cs)
  obtain t this' args' where c: "c = (t, this', args')" by (cases c) auto
  from Cons.prems(2) have t: "tk \<le> t" "t - tk < wait opts" and sp: "spaced (wait opts) t cs"
    by (simp_all add: c)
  from t have lt: "t < tk + wait opts" by linarith
  note adv = burst_advance [OF Cons.prems(1) assms lt, of func]
  have b: "in_burst opts (fst (debounced opts func t this' args' (advance opts func t s))) t this' args'"
    using burst_call [OF conjunct1 [OF adv] assms conjunct2 [OF adv] t(1)] .
  have l: "last ((t, this', args') # cs) = (tn, thisn, argsn)"
    using Cons.prems(3) by (simp add: c)
  from Cons.IH [OF b sp l] show ?case by (simp add: c)
qed

lemma burst_settle:
  assumes b: "in_burst opts s tk this args" and "maxWait opts = None" and "trailing opts"
  shows "invocations (advance opts func T s)
           = (if tk + wait opts \<le> T then [(tk + wait opts, Some this, args)] else [])"
proof -
  from b obtain h due where s: "lastCallTime s = Some tk" "lastArgs s = Some args"
    "lastThis s = Some this" "maxTimeout s = None" "invocations s = []"
    "timers s = [(h, TimerExpired, due)]" "timeout s = Some h" "tk \<le> due" "due \<le> tk + wait opts"
    by (rule in_burstE)
  have fin: "invocations (advance opts func T u) = [(tk + wait opts, Some this, args)]"
    if u: "lastCallTime u = Some tk" "lastArgs u = Some args" "lastThis u = Some this"
      "maxTimeout u = None" "invocations u = []" "timers u = [(k, TimerExpired, tk + wait opts)]"
      and T: "tk + wait opts \<le> T"
    for u :: "('a, 'b, 'c) debounce_state" and k
  proof -
    let ?u1 = "u\<lparr>timers := [], timeout := None,
             lastArgs := None, lastThis := None, lastInvokeTime := tk + wait opts,
             invocations := [(tk + wait opts, Some this, args)],
             result := result_after (func (Some this) args) (result u)\<rparr>"
    have "dispatch opts func (tk + wait opts) (k, TimerExpired, tk + wait opts) u = ?u1"
      using burst_dispatch_due [OF u(1,2,4) assms(3), of func k] u by simp
    then have "advance opts func T u = advance opts func T ?u1"
      using advance_fire [of u "(k, TimerExpired, tk + wait opts)" T opts func] u(6) T by simp
    also have "\<dots> = ?u1" by (simp add: advance_idle)
    finally show ?thesis by simp
  qed
  show ?thesis
  proof (cases "due \<le> T")
    case False
    then have "advance opts func T s = s" using s(6) by (simp add: advance_wait)
    with False s(5,9) show ?thesis by simp
  next
    case True
    show ?thesis
    proof (cases "due = tk + wait opts")
      case True
      with \<open>due \<le> T\<close> fin [OF s(1-5), of h] s(6) show ?thesis by simp
    next
      case False
      with s(9) have lt: "due < tk + wait opts" by linarith
      let ?s1 = "s\<lparr>timers := [(nextHandle s, TimerExpired, tk + wait opts)],
                    nextHandle := Suc (nextHandle s), timeout := Some (nextHandle s)\<rparr>"
      have "dispatch opts func due (h, TimerExpired, due) s = ?s1"
        using burst_dispatch_early [OF s(1) assms(2) s(8) lt, of func h] s(6) by simp
      then have eq: "advance opts func T s = advance opts func T ?s1"
        using advance_fire [of s "(h, TimerExpired, due)" T opts func] s(6) True by simp
      show ?thesis
      proof (cases "tk + wait opts \<le> T")
        case True
        have "invocations (advance opts func T ?s1) = [(tk + wait opts, Some this, args)]"
          by (rule fin [OF _ _ _ _ _ _ True]) (simp_all add: s)
        with True eq show ?thesis by simp
      next
        case False
        then have "advance opts func T ?s1 = ?s1" by (simp add: advance_wait)
        with False eq s(5) show ?thesis by simp
      qed
    qed
  qed
qed

subsection \<open>Letting the pending work fire\<close>

lemma distinct_fst_filter: "distinct (map fst xs) \<Longrightarrow> distinct (map fst (filter P xs))"
  by (induction xs) auto

lemma distinct_fst_kind:
  "distinct (map fst xs) \<Longrightarrow> (h, c, d) \<in> set xs \<Longrightarrow> (h, c', d') \<in> set xs \<Longrightarrow> c = c'"
  by (induction xs) (auto simp: image_iff)

lemma remainingWait_le:
  "lastCallTime s = Some tc \<Longrightarrow> now + remainingWait opts now s \<le> tc + wait opts"
  by (auto simp add: remainingWait_def orZero_def Let_def split: option.splits)

lemma remainingWait_timers [simp]:
  "remainingWait opts time (s\<lparr>timers := tms\<rparr>) = remainingWait opts time s"
  by (simp add: remainingWait_def)

lemma dispatch_cases:
  "dispatch opts func now (h, k, d) s =
     (let s1 = s\<lparr>timers := filter (\<lambda>x. fst x \<noteq> h) (timers s)\<rparr>
      in if (k = TimerExpired \<and> shouldInvoke opts now s)
            \<or> (k = MaxTimerExpired \<and> lastArgs s \<noteq> None \<and> trailing opts)
         then fst (trailingEdge opts func now s1)
         else if k = TimerExpired
         then s1\<lparr>timers := timers s1 @ [(nextHandle s, TimerExpired, now + max 0 (remainingWait opts now s))],
                 nextHandle := Suc (nextHandle s), timeout := Some (nextHandle s)\<rparr>
         else s1)"
  by (cases k) (simp_all add: dispatch_eq fst_timerExpired fst_maxTimerExpired Let_def)

text \<open>What a trailing edge and a fresh timer do to a sound queue.\<close>

lemma sound_queue_trailingEdge:
  assumes "sound_queue s"
  shows "sound_queue (fst (trailingEdge opts func now s))"
proof -
  from assms have di: "distinct (map fst (timers s))"
    and bd: "\<forall>tm \<in> set (timers s). fst tm < nextHandle s"
    unfolding sound_queue_def by simp_all
  have di2: "distinct (map fst (filter (\<lambda>x. fst x \<noteq> m) (timers s)))" for m
    using di by (rule distinct_fst_filter)
  show ?thesis
    unfolding sound_queue_def using di di2 bd
    by (cases "maxTimeout s"; cases "lastArgs s")
       (auto simp add: fst_trailingEdge fst_invokeFunc Let_def)
qed

lemma sound_queue_setTimeout:
  assumes "sound_queue s" and "lastArgs s \<noteq> None \<longrightarrow> lastCallTime s \<noteq> None"
  shows "sound_queue (s\<lparr>timers := filter P (timers s) @ [(nextHandle s, TimerExpired, due)],
                          nextHandle := Suc (nextHandle s), timeout := Some (nextHandle s)\<rparr>)"
proof -
  from assms have di: "distinct (map fst (timers s))"
    and bd: "\<forall>tm \<in> set (timers s). fst tm < nextHandle s"
    unfolding sound_queue_def by simp_all
  have fresh: "nextHandle s \<notin> fst ` set (filter P (timers s))" using bd by fastforce
  show ?thesis
    unfolding sound_queue_def using distinct_fst_filter [OF di, of P] bd fresh assms(2)
    by (auto simp add: less_Suc_eq)
qed

lemma sound_queue_dispatch:
  assumes w: "sound_queue s" and tm: "tm \<in> set (timers s)"
  shows "sound_queue (dispatch opts func now tm s)"
proof -
  obtain h k d where tmeq: "tm = (h, k, d)" by (cases tm)
  let ?s1 = "s\<lparr>timers := filter (\<lambda>x. fst x \<noteq> h) (timers s)\<rparr>"
  from w have di: "distinct (map fst (timers s))"
    and bd: "\<forall>tm \<in> set (timers s). fst tm < nextHandle s"
    and lv: "\<forall>h. timeout s = Some h \<longrightarrow> (\<exists>d. (h, TimerExpired, d) \<in> set (timers s))"
    and pc: "lastArgs s \<noteq> None \<longrightarrow> lastCallTime s \<noteq> None"
    unfolding sound_queue_def by simp_all
  have s1: "sound_queue ?s1" if "k = MaxTimerExpired"
  proof -
    have "\<exists>d'. (h', TimerExpired, d') \<in> set (timers ?s1)" if "timeout s = Some h'" for h'
    proof -
      from lv that obtain d' where m: "(h', TimerExpired, d') \<in> set (timers s)" by blast
      have "h' \<noteq> h"
      proof
        assume "h' = h"
        with m tm tmeq have "TimerExpired = k" using distinct_fst_kind [OF di] by blast
        with \<open>k = MaxTimerExpired\<close> show False by simp
      qed
      with m show ?thesis by force
    qed
    then have "\<forall>h'. timeout ?s1 = Some h' \<longrightarrow> (\<exists>d'. (h', TimerExpired, d') \<in> set (timers ?s1))"
      by simp
    moreover have "\<forall>tm \<in> set (timers ?s1). fst tm < nextHandle ?s1" using bd by simp
    moreover have "distinct (map fst (timers ?s1))" using di by (simp add: distinct_fst_filter)
    moreover have "lastArgs ?s1 \<noteq> None \<longrightarrow> lastCallTime ?s1 \<noteq> None" using pc by simp
    ultimately show ?thesis unfolding sound_queue_def by blast
  qed
  have s0: "sound_queue (?s1\<lparr>timeout := None\<rparr>)"
    using di bd pc unfolding sound_queue_def by (auto simp add: distinct_fst_filter)
  have te: "fst (trailingEdge opts func now ?s1) = fst (trailingEdge opts func now (?s1\<lparr>timeout := None\<rparr>))"
    by (cases "maxTimeout s") (simp_all add: fst_trailingEdge Let_def)
  consider (edge) "(k = TimerExpired \<and> shouldInvoke opts now s)
            \<or> (k = MaxTimerExpired \<and> lastArgs s \<noteq> None \<and> trailing opts)"
    | (again) "k = TimerExpired" "\<not> shouldInvoke opts now s"
    | (idle) "k = MaxTimerExpired" "\<not> (lastArgs s \<noteq> None \<and> trailing opts)"
    by (cases k) blast+
  then show ?thesis
  proof cases
    case edge
    then have e: "dispatch opts func now tm s = fst (trailingEdge opts func now ?s1)"
      by (simp add: tmeq dispatch_cases)
    show ?thesis unfolding e te using s0 by (rule sound_queue_trailingEdge)
  next
    case again
    then have e: "dispatch opts func now tm s
          = s\<lparr>timers := filter (\<lambda>x. fst x \<noteq> h) (timers s)
                          @ [(nextHandle s, TimerExpired, now + max 0 (remainingWait opts now s))],
               nextHandle := Suc (nextHandle s), timeout := Some (nextHandle s)\<rparr>"
      by (simp add: tmeq dispatch_cases)
    show ?thesis unfolding e using w pc by (rule sound_queue_setTimeout)
  next
    case idle
    then have e: "dispatch opts func now tm s = ?s1"
      by (auto simp add: tmeq dispatch_cases Let_def)
    show ?thesis unfolding e using idle(1) by (rule s1)
  qed
qed

lemma due_dispatch:
  assumes bd: "\<forall>tm \<in> set (timers s). snd (snd tm) \<le> T"
      and lc: "lastCallTime s = Some tc" and T: "tc + wait opts \<le> T"
  shows "\<forall>tm' \<in> set (timers (dispatch opts func now tm s)). snd (snd tm') \<le> T"
proof -
  obtain h k d where tmeq: "tm = (h, k, d)" by (cases tm)
  let ?s1 = "s\<lparr>timers := filter (\<lambda>x. fst x \<noteq> h) (timers s)\<rparr>"
  have bd1: "\<forall>tm \<in> set (timers ?s1). snd (snd tm) \<le> T" using bd by simp
  consider (edge) "(k = TimerExpired \<and> shouldInvoke opts now s)
            \<or> (k = MaxTimerExpired \<and> lastArgs s \<noteq> None \<and> trailing opts)"
    | (again) "k = TimerExpired" "\<not> shouldInvoke opts now s"
    | (idle) "k = MaxTimerExpired" "\<not> (lastArgs s \<noteq> None \<and> trailing opts)"
    by (cases k) blast+
  then show ?thesis
  proof cases
    case edge
    then have e: "dispatch opts func now tm s = fst (trailingEdge opts func now ?s1)"
      by (simp add: tmeq dispatch_cases)
    show ?thesis
      unfolding e using bd1
      by (cases "maxTimeout s"; cases "lastArgs s")
         (auto simp add: fst_trailingEdge fst_invokeFunc Let_def)
  next
    case again
    then have e: "dispatch opts func now tm s
          = ?s1\<lparr>timers := timers ?s1 @ [(nextHandle s, TimerExpired, now + max 0 (remainingWait opts now s))],
                 nextHandle := Suc (nextHandle s), timeout := Some (nextHandle s)\<rparr>"
      by (simp add: tmeq dispatch_cases)
    from again have "0 < remainingWait opts now s" by (simp add: remainingWait_pos)
    moreover have "now + remainingWait opts now s \<le> tc + wait opts" using lc by (rule remainingWait_le)
    ultimately have due: "now + max 0 (remainingWait opts now s) \<le> T" using T by simp
    show ?thesis unfolding e using bd1 due by auto
  next
    case idle
    then have e: "dispatch opts func now tm s = ?s1"
      by (auto simp add: tmeq dispatch_cases Let_def)
    show ?thesis unfolding e using bd1 .
  qed
qed

lemma live_queue_dispatch:
  assumes w: "live_queue T s" and lc: "lastCallTime s = Some tc" and T: "tc + wait opts \<le> T"
      and tm: "tm \<in> set (timers s)"
  shows "live_queue T (dispatch opts func now tm s)"
  using w sound_queue_dispatch [OF _ tm, where opts = opts and func = func and now = now]
    due_dispatch [OF _ lc T, where func = func and now = now and tm = tm]
  unfolding live_queue_def by blast

text \<open>Every state that the wrapper reaches from its initial state has a sound queue.\<close>

lemma sound_queue_step:
  assumes "sound_queue s"
  shows "sound_queue (step opts func s ev)"
proof (cases ev)
  case (Call now this args)
  let ?s1 = "s\<lparr>lastArgs := Some args, lastThis := Some this, lastCallTime := Some now\<rparr>"
  from assms have s1: "sound_queue ?s1" unfolding sound_queue_def by simp
  from assms have di: "distinct (map fst (timers s))"
    and bd: "\<forall>tm \<in> set (timers s). fst tm < nextHandle s"
    unfolding sound_queue_def by simp_all
  have fresh: "nextHandle s \<notin> fst ` set (timers s)" using bd by fastforce
  show ?thesis
    unfolding Call using assms di bd fresh
    by (cases "maxWait opts")
       (auto simp add: sound_queue_def fst_debounced fst_leadingEdge fst_invokeFunc Let_def less_Suc_eq)
next
  case (Fire now h)
  show ?thesis
  proof (cases "find (\<lambda>tm. fst tm = h) (timers s)")
    case None
    with Fire assms show ?thesis by (simp add: fire_def)
  next
    case (Some tm)
    then have "tm \<in> set (timers s)" by (auto simp add: find_Some_iff)
    from sound_queue_dispatch [OF assms this, where opts = opts and func = func and now = now]
      Some Fire assms
    show ?thesis by (simp add: fire_def)
  qed
next
  case Cancel
  from assms have di: "distinct (map fst (timers s))"
    and bd: "\<forall>tm \<in> set (timers s). fst tm < nextHandle s"
    unfolding sound_queue_def by simp_all
  show ?thesis
    unfolding Cancel using di bd
    by (auto simp add: sound_queue_def cancel_def clearTimeout_def Let_def distinct_fst_filter
        split: option.splits)
next
  case (Flush now)
  from sound_queue_trailingEdge [OF assms, where opts = opts and func = func and now = now] assms
  show ?thesis unfolding Flush by (simp add: fst_flush)
qed

lemma sound_queue_run: "sound_queue (run opts func debounce_init evs)"
proof -
  have "sound_queue s \<Longrightarrow> sound_queue (run opts func s evs)" for s :: "('a, 'b, 'c) debounce_state"
    by (induction evs arbitrary: s) (simp_all add: sound_queue_step)
  moreover have "sound_queue (debounce_init :: ('a, 'b, 'c) debounce_state)"
    by (simp add: sound_queue_def debounce_init_def)
  ultimately show ?thesis .
qed

lemma settling_dispatch:
  assumes w: "settling opts func s0 s" and a: "lastArgs s0 = Some args"
  shows "settling opts func s0 (dispatch opts func d (h, k, d) s)"
proof -
  let ?s1 = "s\<lparr>timers := filter (\<lambda>x. fst x \<noteq> h) (timers s)\<rparr>"
  consider (edge) "(k = TimerExpired \<and> shouldInvoke opts d s)
            \<or> (k = MaxTimerExpired \<and> lastArgs s \<noteq> None \<and> trailing opts)"
    | (again) "k = TimerExpired" "\<not> shouldInvoke opts d s"
    | (idle) "k = MaxTimerExpired" "\<not> (lastArgs s \<noteq> None \<and> trailing opts)"
    by (cases k) blast+
  then show ?thesis
  proof cases
    case edge
    then have e: "dispatch opts func d (h, k, d) s = fst (trailingEdge opts func d ?s1)"
      by (simp add: dispatch_cases)
    show ?thesis
      unfolding e using w a unfolding settling_def
      by (cases "maxTimeout s"; cases "lastArgs s"; cases "trailing opts")
         (auto simp add: fst_trailingEdge fst_invokeFunc args_of_def Let_def)
  next
    case again
    then have e: "dispatch opts func d (h, k, d) s
          = ?s1\<lparr>timers := timers ?s1 @ [(nextHandle s, TimerExpired, d + max 0 (remainingWait opts d s))],
                 nextHandle := Suc (nextHandle s), timeout := Some (nextHandle s)\<rparr>"
      by (simp add: dispatch_cases)
    show ?thesis unfolding e using w unfolding settling_def by auto
  next
    case idle
    then have e: "dispatch opts func d (h, k, d) s = ?s1"
      by (auto simp add: dispatch_cases Let_def)
    show ?thesis unfolding e using w unfolding settling_def by auto
  qed
qed

lemma earliest_None: "earliest tms = None \<Longrightarrow> tms = []"
  by (cases tms) (auto split: option.splits if_splits)

lemma settling_advance:
  assumes a: "lastArgs s0 = Some args" and c: "lastCallTime s0 = Some tc"
  shows "tc + wait opts \<le> T \<Longrightarrow> settling opts func s0 s \<Longrightarrow> live_queue T s
         \<Longrightarrow> settling opts func s0 (advance opts func T s) \<and> timers (advance opts func T s) = []
             \<and> live_queue T (advance opts func T s)"
proof (induction opts func T s rule: advance.induct)
  case (1 opts func t s)
  show ?case
  proof (cases "earliest (timers s)")
    case None
    then have "advance opts func t s = s" by (rule advance_idle)
    with None 1 show ?thesis by (simp add: earliest_None)
  next
    case (Some tm)
    then have m: "tm \<in> set (timers s)" by (rule earliest_mem)
    then have le: "snd (snd tm) \<le> t" using "1.prems"(3) unfolding live_queue_def by blast
    have lc: "lastCallTime s = Some tc" using "1.prems"(2) c unfolding settling_def by simp
    have q: "live_queue t (dispatch opts func (snd (snd tm)) tm s)"
      using live_queue_dispatch [OF "1.prems"(3) lc "1.prems"(1) m] .
    have "settling opts func s0 (dispatch opts func (snd (snd tm)) (fst tm, fst (snd tm), snd (snd tm)) s)"
      using "1.prems"(2) a by (rule settling_dispatch)
    then have p: "settling opts func s0 (dispatch opts func (snd (snd tm)) tm s)" by simp
    from "1.IH" [OF Some le "1.prems"(1) p q] show ?thesis
      using advance_fire [OF Some le] by simp
  qed
qed

subsection \<open>Periodic calls under \<open>maxWait\<close>\<close>

lemmas eval_simps = dispatch_eq fst_timerExpired fst_maxTimerExpired fst_trailingEdge fst_invokeFunc
  fst_debounced fst_leadingEdge shouldInvoke_def remainingWait_def orZero_def args_of_def Let_def

lemma advance_all_later:
  assumes "\<forall>tm \<in> set (timers s). t < snd (snd tm)"
  shows "advance opts func t s = s"
proof (cases "earliest (timers s)")
  case None
  then show ?thesis by (rule advance_idle)
next
  case (Some tm)
  then have "tm \<in> set (timers s)" by (rule earliest_mem)
  with assms have "t < snd (snd tm)" by blast
  with Some show ?thesis by (rule advance_wait)
qed

lemma serve_append:
  "serve opts func s (xs @ ys) = serve opts func (serve opts func s xs) ys"
  by (induction xs arbitrary: s) auto

lemma serve_snoc:
  "serve opts func s (xs @ [(t, this, args)]) = tick opts func t this args (serve opts func s xs)"
  by (simp add: serve_append tick_def)

lemma periodic_Suc:
  "periodic h this args (Suc n) = periodic h this args n @ [(int n * h, this n, args n)]"
  by (simp add: periodic_def)

lemma serve_periodic_Suc:
  "serve opts func s (periodic h this args (Suc n)) =
     tick opts func (int n * h) (this n) (args n) (serve opts func s (periodic h this args n))"
  by (simp add: periodic_Suc serve_snoc)

text \<open>No timer due yet.\<close>

lemma tick_quiet:
  assumes "phase s tc this args p log tms (Some hT) mto"
      and "\<forall>tm \<in> set tms. t < snd (snd tm)"
      and "wait opts = 2 * h" and "maxWait opts = Some W"
      and "tc \<le> t" and "t - tc < 2 * h" and "t - p < W"
  shows "phase (tick opts func t this' args' s) t this' args' p log tms (Some hT) mto
       \<and> nextHandle (tick opts func t this' args' s) = nextHandle s"
proof -
  have "advance opts func t s = s"
    using assms(1,2) by (intro advance_all_later) (simp add: phase_def)
  then show ?thesis
    using assms(1,3-7) by (simp add: tick_def phase_def eval_simps)
qed

text \<open>The primary timer alone, due now, inside the \<open>maxWait\<close> window: it reschedules itself.\<close>

lemma tick_resched:
  assumes ph: "phase s tc this args p log [(hT, TimerExpired, t)] (Some hT) None"
      and "wait opts = 2 * h" and "maxWait opts = Some W" and "0 < h"
      and "t - tc = h" and "t - p < W"
  shows "phase (tick opts func t this' args' s) t this' args' p log
           [(nextHandle s, TimerExpired, min (t + h) (p + W))] (Some (nextHandle s)) None"
proof -
  let ?s1 = "s\<lparr>timers := [(nextHandle s, TimerExpired, min (t + h) (p + W))],
                nextHandle := Suc (nextHandle s), timeout := Some (nextHandle s)\<rparr>"
  have d: "dispatch opts func t (hT, TimerExpired, t) s = ?s1"
    using assms by (simp add: phase_def eval_simps min_def)
  have "advance opts func t s = advance opts func t ?s1"
    using advance_fire [of s "(hT, TimerExpired, t)" t opts func] ph d by (simp add: phase_def)
  also have "\<dots> = ?s1" using assms(4,6) by (simp add: advance_wait)
  finally have "advance opts func t s = ?s1" .
  then show ?thesis
    using assms by (simp add: tick_def phase_def eval_simps)
qed

text \<open>
  The primary timer alone, due when the \<open>maxWait\<close> window ends, at or before the next call:
  the trailing edge, and the call schedules a fresh timer.
\<close>

lemma tick_invoke:
  assumes ph: "phase s tc this args p log [(hT, TimerExpired, D)] (Some hT) None"
      and "wait opts = 2 * h" and "maxWait opts = Some W" and "0 < h" and "trailing opts"
      and "t - tc = h" and "D - p = W" and "tc < D" and "D \<le> t" and "h \<le> W"
  shows "phase (tick opts func t this' args' s) t this' args' D (log @ [(D, Some this, args)])
           [(nextHandle s, TimerExpired, t + 2 * h)] (Some (nextHandle s)) None"
proof -
  let ?s1 = "s\<lparr>timers := [], timeout := None, lastArgs := None, lastThis := None,
                lastInvokeTime := D, invocations := log @ [(D, Some this, args)],
                result := result_after (func (Some this) args) (result s)\<rparr>"
  have d: "dispatch opts func D (hT, TimerExpired, D) s = ?s1"
    using assms by (simp add: phase_def eval_simps)
  have "advance opts func t s = advance opts func t ?s1"
    using advance_fire [of s "(hT, TimerExpired, D)" t opts func] ph d assms(9)
    by (simp add: phase_def)
  also have "\<dots> = ?s1" by (simp add: advance_idle)
  finally have "advance opts func t s = ?s1" .
  then show ?thesis
    using assms by (simp add: tick_def phase_def eval_simps)
qed

text \<open>
  The first primary timer and the escape timer due together (\<open>maxWait = wait\<close>): the primary
  timer, created first, fires first, takes the trailing edge and clears the escape timer.
\<close>

lemma tick_both_due:
  assumes ph: "phase s tc this args p log [(hT, TimerExpired, t), (hM, MaxTimerExpired, t)]
                 (Some hT) (Some hM)"
      and "hT \<noteq> hM"
      and "wait opts = 2 * h" and "maxWait opts = Some W" and "0 < h" and "trailing opts"
      and "t - tc = h" and "t - p = W" and "0 < W"
  shows "phase (tick opts func t this' args' s) t this' args' t (log @ [(t, Some this, args)])
           [(nextHandle s, TimerExpired, t + 2 * h)] (Some (nextHandle s)) None"
proof -
  let ?s1 = "s\<lparr>timers := [], timeout := None, maxTimeout := None, lastArgs := None, lastThis := None,
                lastInvokeTime := t, invocations := log @ [(t, Some this, args)],
                result := result_after (func (Some this) args) (result s)\<rparr>"
  have d: "dispatch opts func t (hT, TimerExpired, t) s = ?s1"
    using assms by (simp add: phase_def eval_simps)
  have "advance opts func t s = advance opts func t ?s1"
    using advance_fire [of s "(hT, TimerExpired, t)" t opts func] ph d by (simp add: phase_def)
  also have "\<dots> = ?s1" by (simp add: advance_idle)
  finally have "advance opts func t s = ?s1" .
  then show ?thesis
    using assms by (simp add: tick_def phase_def eval_simps)
qed

text \<open>The primary timer due now, the escape timer later: the primary timer reschedules itself.\<close>

lemma tick_resched_first:
  assumes ph: "phase s tc this args p log [(hT, TimerExpired, t), (hM, MaxTimerExpired, tM)]
                 (Some hT) (Some hM)"
      and "hT \<noteq> hM" and "t < tM"
      and "wait opts = 2 * h" and "maxWait opts = Some W" and "0 < h"
      and "t - tc = h" and "t - p < W"
  shows "phase (tick opts func t this' args' s) t this' args' p log
           [(hM, MaxTimerExpired, tM), (nextHandle s, TimerExpired, min (t + h) (p + W))]
           (Some (nextHandle s)) (Some hM)
       \<and> nextHandle (tick opts func t this' args' s) = Suc (nextHandle s)"
proof -
  let ?s1 = "s\<lparr>timers := [(hM, MaxTimerExpired, tM), (nextHandle s, TimerExpired, min (t + h) (p + W))],
                nextHandle := Suc (nextHandle s), timeout := Some (nextHandle s)\<rparr>"
  have d: "dispatch opts func t (hT, TimerExpired, t) s = ?s1"
    using assms by (simp add: phase_def eval_simps min_def)
  have "advance opts func t s = advance opts func t ?s1"
    using advance_fire [of s "(hT, TimerExpired, t)" t opts func] ph d assms(3)
    by (simp add: phase_def)
  also have "\<dots> = ?s1"
    using assms(3,6,8) by (intro advance_all_later) simp
  finally have "advance opts func t s = ?s1" .
  then show ?thesis
    using assms by (simp add: tick_def phase_def eval_simps)
qed

lemma tick_resched_second:
  assumes ph: "phase s tc this args p log [(hM, MaxTimerExpired, tM), (hT, TimerExpired, t)]
                 (Some hT) (Some hM)"
      and "hT \<noteq> hM" and "t < tM"
      and "wait opts = 2 * h" and "maxWait opts = Some W" and "0 < h"
      and "t - tc = h" and "t - p < W"
  shows "phase (tick opts func t this' args' s) t this' args' p log
           [(hM, MaxTimerExpired, tM), (nextHandle s, TimerExpired, min (t + h) (p + W))]
           (Some (nextHandle s)) (Some hM)
       \<and> nextHandle (tick opts func t this' args' s) = Suc (nextHandle s)"
proof -
  let ?s1 = "s\<lparr>timers := [(hM, MaxTimerExpired, tM), (nextHandle s, TimerExpired, min (t + h) (p + W))],
                nextHandle := Suc (nextHandle s), timeout := Some (nextHandle s)\<rparr>"
  have d: "dispatch opts func t (hT, TimerExpired, t) s = ?s1"
    using assms by (simp add: phase_def eval_simps min_def)
  have "advance opts func t s = advance opts func t ?s1"
    using advance_fire [of s "(hT, TimerExpired, t)" t opts func] ph d assms(3)
    by (simp add: phase_def)
  also have "\<dots> = ?s1"
    using assms(3,6,8) by (intro advance_all_later) simp
  finally have "advance opts func t s = ?s1" .
  then show ?thesis
    using assms by (simp add: tick_def phase_def eval_simps)
qed

text \<open>
  The escape timer and a later primary timer due together, at or before the next call: the
  escape timer fires first and takes the trailing edge; the primary timer, which nobody
  cleared, fires next and reschedules itself.
\<close>

lemma tick_escape:
  assumes ph: "phase s tc this args p log [(hM, MaxTimerExpired, D), (hT, TimerExpired, D)]
                 (Some hT) (Some hM)"
      and "hT \<noteq> hM"
      and "wait opts = 2 * h" and "maxWait opts = Some W" and "0 < h" and "trailing opts"
      and "t - tc = h" and "tc < D" and "D \<le> t" and "2 * h \<le> W"
  shows "phase (tick opts func t this' args' s) t this' args' D (log @ [(D, Some this, args)])
           [(nextHandle s, TimerExpired, t + h)] (Some (nextHandle s)) None"
proof -
  let ?s1 = "s\<lparr>timers := [(hT, TimerExpired, D)], timeout := None, maxTimeout := None,
                lastArgs := None, lastThis := None,
                lastInvokeTime := D, invocations := log @ [(D, Some this, args)],
                result := result_after (func (Some this) args) (result s)\<rparr>"
  let ?s2 = "?s1\<lparr>timers := [(nextHandle s, TimerExpired, t + h)],
                 nextHandle := Suc (nextHandle s), timeout := Some (nextHandle s)\<rparr>"
  have d1: "dispatch opts func D (hM, MaxTimerExpired, D) s = ?s1"
    using assms by (simp add: phase_def eval_simps)
  have d2: "dispatch opts func D (hT, TimerExpired, D) ?s1 = ?s2"
    using assms by (simp add: phase_def eval_simps min_def)
  have "advance opts func t s = advance opts func t ?s1"
    using advance_fire [of s "(hM, MaxTimerExpired, D)" t opts func] ph d1 assms(9)
    by (simp add: phase_def)
  also have "\<dots> = advance opts func t ?s2"
    using advance_fire [of ?s1 "(hT, TimerExpired, D)" t opts func] d2 assms(9) by simp
  also have "\<dots> = ?s2" using assms(5) by (simp add: advance_wait)
  finally have "advance opts func t s = ?s2" .
  then show ?thesis
    using assms by (simp add: tick_def phase_def eval_simps)
qed

lemma forced_0 [simp]: "forced h W this args 0 = []"
  by (simp add: forced_def)

lemma forced_Suc:
  "forced h W this args (Suc q) =
     forced h W this args q
     @ [(int (Suc q) * W, Some (this (nat ((int (Suc q) * W - 1) div h))),
         args (nat ((int (Suc q) * W - 1) div h)))]"
  by (simp add: forced_def)

lemma Suc_scale: "int (Suc k) * x = int k * x + x"
  by (simp add: algebra_simps)

text \<open>The call made last before time \<open>x\<close>.\<close>

lemma call_before:
  assumes "0 < h" and "int k * h < x" and "x \<le> int k * h + h"
  shows "nat ((x - 1) div h) = k"
proof -
  have "(x - 1 - int k * h + int k * h) div h = (x - 1 - int k * h) div h + int k"
    using assms(1) by (subst div_mult_self1) simp_all
  moreover have "(x - 1 - int k * h) div h = 0"
    using assms by (intro div_pos_pos_trivial) simp_all
  ultimately have "(x - 1) div h = int k" by simp
  then show ?thesis by simp
qed

text \<open>
  How long after an invocation at \<open>j * W\<close> the next call comes, at the latest: both are
  multiples of \<open>gcd W h\<close>.
\<close>

lemma slack:
  assumes "3 * h \<le> W + gcd W h" and "0 < h"
      and "int k * h < int j * W" and "int j * W \<le> int k * h + h"
  shows "int k * h + 3 * h \<le> int j * W + W"
proof -
  let ?g = "gcd W h"
  have "?g dvd int j * W" and "?g dvd int k * h" by simp_all
  then have "?g dvd int j * W - int k * h" by (rule dvd_diff)
  moreover have "0 < int j * W - int k * h" using assms(3) by simp
  ultimately have "?g \<le> int j * W - int k * h" by (rule zdvd_imp_le)
  with assms(1) show ?thesis by linarith
qed

lemma steady_step:
  assumes st: "steady opts h W this args k s"
      and cfg: "wait opts = 2 * h" "maxWait opts = Some W" "trailing opts"
      and h: "0 < h" and W: "3 * h \<le> W + gcd W h" "2 * h \<le> W"
  shows "steady opts h W this args (Suc k)
           (tick opts func (int (Suc k) * h) (this (Suc k)) (args (Suc k)) s)"
proof -
  let ?c = "int k * h"
  let ?t = "?c + h"
  let ?pre = "pre_log opts this args"
  let ?s' = "tick opts func ?t (this (Suc k)) (args (Suc k)) s"
  from st obtain j hT D where j: "1 \<le> j" and lo: "int j * W \<le> ?c" and hi: "?c < int j * W + W"
    and ph: "phase s ?c (this k) (args k) (int j * W) (?pre @ forced h W this args j)
               [(hT, TimerExpired, D)] (Some hT) None"
    and D: "D = min ?t (int j * W + W)
            \<or> (?c < int j * W + h \<and> D = ?c + 2 * h \<and> D \<le> int j * W + W)"
    unfolding steady_def by blast
  let ?p = "int j * W"
  have bk: "?t - ?c = h" by simp
  have hW: "h \<le> W" using h W(2) by linarith
  have m1: "min ?t (?p + W) = ?t" if "?t < ?p + W" by (rule min.absorb1) (use that in linarith)
  have m2: "min ?t (?p + W) = ?p + W" if "?p + W \<le> ?t" using that by (rule min.absorb2)
  have "?t < ?p + W \<or> ?p + W \<le> ?t" by linarith
  with D m1 m2 consider
      (quiet) "?c < ?p + h" "D = ?c + 2 * h" "D \<le> ?p + W"
    | (resched) "D = ?t" "?t < ?p + W"
    | (invoke) "D = ?p + W" "?p + W \<le> ?t"
    by metis
  then show ?thesis
  proof cases
    case quiet
    have later: "\<forall>tm \<in> set [(hT, TimerExpired, D)]. ?t < snd (snd tm)"
      using quiet(2) h by simp
    have le: "?c \<le> ?t" using h by simp
    have lt: "?t - ?c < 2 * h" using h by simp
    have win: "?t - ?p < W" using quiet(2,3) h by linarith
    have "phase ?s' ?t (this (Suc k)) (args (Suc k)) ?p (?pre @ forced h W this args j)
            [(hT, TimerExpired, D)] (Some hT) None"
      by (rule conjunct1 [OF tick_quiet [OF ph later cfg(1,2) le lt win]])
    moreover have "D = min (?t + h) (?p + W)" using quiet(2,3) by simp
    moreover have "?p \<le> ?t" using lo h by linarith
    moreover have "?t < ?p + W" using win by linarith
    ultimately show ?thesis
      unfolding steady_def Suc_scale using j by blast
  next
    case resched
    from ph resched(1) have ph': "phase s ?c (this k) (args k) ?p (?pre @ forced h W this args j)
               [(hT, TimerExpired, ?t)] (Some hT) None"
      by simp
    have win: "?t - ?p < W" using resched(2) by linarith
    have "phase ?s' ?t (this (Suc k)) (args (Suc k)) ?p (?pre @ forced h W this args j)
            [(nextHandle s, TimerExpired, min (?t + h) (?p + W))] (Some (nextHandle s)) None"
      by (rule tick_resched [OF ph' cfg(1,2) h bk win])
    moreover have "?p \<le> ?t" using lo h by linarith
    ultimately show ?thesis
      unfolding steady_def Suc_scale using j resched(2) by blast
  next
    case invoke
    let ?D = "?p + W"
    from ph invoke(1) have ph': "phase s ?c (this k) (args k) ?p (?pre @ forced h W this args j)
               [(hT, TimerExpired, ?D)] (Some hT) None"
      by simp
    have w: "?D - ?p = W" by simp
    have p': "int (Suc j) * W = ?D" by (rule Suc_scale)
    have kb: "nat ((?D - 1) div h) = k"
      using h hi invoke(2) by (rule call_before)
    have e2: "?pre @ forced h W this args (Suc j)
                = (?pre @ forced h W this args j) @ [(?D, Some (this k), args k)]"
      unfolding forced_Suc p' kb by simp
    have ph2: "phase ?s' ?t (this (Suc k)) (args (Suc k)) ?D
            ((?pre @ forced h W this args j) @ [(?D, Some (this k), args k)])
            [(nextHandle s, TimerExpired, ?t + 2 * h)] (Some (nextHandle s)) None"
      by (rule tick_invoke [OF ph' cfg(1,2) h cfg(3) bk w hi invoke(2) hW])
    have sl: "?c + 3 * h \<le> int (Suc j) * W + W"
      by (rule slack [OF W(1) h]) (unfold p', rule hi, rule invoke(2))
    have "1 \<le> Suc j" by simp
    moreover have "int (Suc j) * W \<le> ?t" unfolding p' using invoke(2) .
    moreover have "?t < int (Suc j) * W + W" unfolding p' using hi hW by linarith
    moreover have "phase ?s' ?t (this (Suc k)) (args (Suc k)) (int (Suc j) * W)
            (?pre @ forced h W this args (Suc j))
            [(nextHandle s, TimerExpired, ?t + 2 * h)] (Some (nextHandle s)) None"
      unfolding e2 p' using ph2 .
    moreover have "?t < int (Suc j) * W + h" unfolding p' using hi by linarith
    moreover have "?t + 2 * h \<le> int (Suc j) * W + W" using sl by linarith
    ultimately show ?thesis
      unfolding steady_def Suc_scale [of k] by blast
  qed
qed

lemma onset_step_both:
  assumes on: "onset opts h W this args s" and W: "W = 2 * h"
      and cfg: "wait opts = 2 * h" "maxWait opts = Some W" "trailing opts"
      and h: "0 < h"
  shows "steady opts h W this args 2 (tick opts func (int 2 * h) (this 2) (args 2) s)"
proof -
  let ?pre = "pre_log opts this args"
  let ?t = "int 2 * h"
  let ?s' = "tick opts func ?t (this 2) (args 2) s"
  from on have ph: "phase s h (this 1) (args 1) 0 ?pre
        [(0, TimerExpired, ?t), (1, MaxTimerExpired, ?t)] (Some 0) (Some 1)"
    unfolding onset_def W by simp
  have bk: "?t - h = h" by simp
  have win: "?t - 0 = W" unfolding W by simp
  have W0: "0 < W" using h W by simp
  have kb: "nat ((W - 1) div h) = 1"
    by (rule call_before [OF h]) (use h W in simp_all)
  have e2: "?pre @ forced h W this args 1 = ?pre @ [(?t, Some (this 1), args 1)]"
    by (simp add: forced_def kb) (simp add: W)
  have "phase ?s' ?t (this 2) (args 2) ?t (?pre @ [(?t, Some (this 1), args 1)])
          [(nextHandle s, TimerExpired, ?t + 2 * h)] (Some (nextHandle s)) None"
    by (rule tick_both_due [OF ph _ cfg(1,2) h cfg(3) bk win W0]) simp
  then have "phase ?s' ?t (this 2) (args 2) (int 1 * W) (?pre @ forced h W this args 1)
          [(nextHandle s, TimerExpired, ?t + 2 * h)] (Some (nextHandle s)) None"
    unfolding e2 by (simp add: W)
  moreover have "int 1 * W \<le> ?t" "?t < int 1 * W + W" "?t < int 1 * W + h"
    "?t + 2 * h \<le> int 1 * W + W"
    using h by (simp_all add: W)
  moreover have "(1::nat) \<le> 1" by simp
  ultimately show ?thesis
    unfolding steady_def by blast
qed

lemma onset_step_ramp:
  assumes on: "onset opts h W this args s" and W: "2 * h < W"
      and cfg: "wait opts = 2 * h" "maxWait opts = Some W"
      and h: "0 < h"
  shows "ramp opts h W this args 2 (tick opts func (int 2 * h) (this 2) (args 2) s)"
proof -
  let ?pre = "pre_log opts this args"
  let ?t = "int 2 * h"
  let ?s' = "tick opts func ?t (this 2) (args 2) s"
  from on have ph: "phase s h (this 1) (args 1) 0 ?pre
        [(0, TimerExpired, ?t), (1, MaxTimerExpired, W)] (Some 0) (Some 1)"
    and nh: "1 < nextHandle s"
    unfolding onset_def by simp_all
  have bk: "?t - h = h" by simp
  have win: "?t - 0 < W" using W by simp
  have lt: "?t < W" using W by simp
  note t = tick_resched_first [OF ph _ lt cfg(1,2) h bk win, of func "this 2" "args 2"]
  have "phase ?s' ?t (this 2) (args 2) 0 ?pre
          [(1, MaxTimerExpired, W), (nextHandle s, TimerExpired, min (?t + h) (0 + W))]
          (Some (nextHandle s)) (Some 1)"
    and n': "nextHandle ?s' = Suc (nextHandle s)"
    using t by simp_all
  then have "phase ?s' ?t (this 2) (args 2) 0 ?pre
          [(1, MaxTimerExpired, W), (nextHandle s, TimerExpired, min (?t + h) W)]
          (Some (nextHandle s)) (Some 1)"
    by simp
  then show ?thesis
    unfolding ramp_def using lt nh n'
    by (intro conjI exI [of _ "nextHandle s"]) simp_all
qed

lemma ramp_step:
  assumes rp: "ramp opts h W this args k s" and k: "int k * h + h < W"
      and cfg: "wait opts = 2 * h" "maxWait opts = Some W"
      and h: "0 < h"
  shows "ramp opts h W this args (Suc k)
           (tick opts func (int (Suc k) * h) (this (Suc k)) (args (Suc k)) s)"
proof -
  let ?pre = "pre_log opts this args"
  let ?c = "int k * h"
  let ?t = "?c + h"
  let ?s' = "tick opts func ?t (this (Suc k)) (args (Suc k)) s"
  from rp obtain hT where k2: "2 \<le> k"
    and ph: "phase s ?c (this k) (args k) 0 ?pre
               [(1, MaxTimerExpired, W), (hT, TimerExpired, min ?t W)] (Some hT) (Some 1)"
    and hT: "hT \<noteq> 1" and nh: "1 < nextHandle s"
    unfolding ramp_def by auto
  have m: "min ?t W = ?t" by (rule min.absorb1) (use k in linarith)
  from ph have ph': "phase s ?c (this k) (args k) 0 ?pre
               [(1, MaxTimerExpired, W), (hT, TimerExpired, ?t)] (Some hT) (Some 1)"
    unfolding m .
  have bk: "?t - ?c = h" by simp
  have win: "?t - 0 < W" using k by simp
  note t = tick_resched_second [OF ph' hT k cfg(1,2) h bk win, of func "this (Suc k)" "args (Suc k)"]
  have "phase ?s' ?t (this (Suc k)) (args (Suc k)) 0 ?pre
          [(1, MaxTimerExpired, W), (nextHandle s, TimerExpired, min (?t + h) (0 + W))]
          (Some (nextHandle s)) (Some 1)"
    and n': "nextHandle ?s' = Suc (nextHandle s)"
    using t by simp_all
  then have "phase ?s' ?t (this (Suc k)) (args (Suc k)) 0 ?pre
          [(1, MaxTimerExpired, W), (nextHandle s, TimerExpired, min (?t + h) W)]
          (Some (nextHandle s)) (Some 1)"
    by simp
  then show ?thesis
    unfolding ramp_def Suc_scale using k k2 nh n'
    by (intro conjI exI [of _ "nextHandle s"]) simp_all
qed

lemma ramp_exit:
  assumes rp: "ramp opts h W this args k s" and k: "W \<le> int k * h + h"
      and cfg: "wait opts = 2 * h" "maxWait opts = Some W" "trailing opts"
      and h: "0 < h" and W: "2 * h \<le> W"
  shows "steady opts h W this args (Suc k)
           (tick opts func (int (Suc k) * h) (this (Suc k)) (args (Suc k)) s)"
proof -
  let ?pre = "pre_log opts this args"
  let ?c = "int k * h"
  let ?t = "?c + h"
  let ?s' = "tick opts func ?t (this (Suc k)) (args (Suc k)) s"
  from rp obtain hT where k2: "2 \<le> k" and lt: "?c < W"
    and ph: "phase s ?c (this k) (args k) 0 ?pre
               [(1, MaxTimerExpired, W), (hT, TimerExpired, min ?t W)] (Some hT) (Some 1)"
    and hT: "hT \<noteq> 1"
    unfolding ramp_def by auto
  have m: "min ?t W = W" using k by (rule min.absorb2)
  from ph have ph': "phase s ?c (this k) (args k) 0 ?pre
               [(1, MaxTimerExpired, W), (hT, TimerExpired, W)] (Some hT) (Some 1)"
    unfolding m .
  have bk: "?t - ?c = h" by simp
  have kb: "nat ((W - 1) div h) = k" using h lt k by (rule call_before)
  have e2: "?pre @ forced h W this args 1 = ?pre @ [(W, Some (this k), args k)]"
    by (simp add: forced_def kb)
  have "phase ?s' ?t (this (Suc k)) (args (Suc k)) W (?pre @ [(W, Some (this k), args k)])
          [(nextHandle s, TimerExpired, ?t + h)] (Some (nextHandle s)) None"
    by (rule tick_escape [OF ph' hT cfg(1,2) h cfg(3) bk lt k W])
  then have "phase ?s' ?t (this (Suc k)) (args (Suc k)) (int 1 * W) (?pre @ forced h W this args 1)
          [(nextHandle s, TimerExpired, ?t + h)] (Some (nextHandle s)) None"
    unfolding e2 by simp
  moreover have "int 1 * W \<le> ?t" using k by simp
  moreover have "?t < int 1 * W + W" using lt h W by simp
  moreover have "?t + h = min (?t + h) (int 1 * W + W)" using lt h W by simp
  moreover have "(1::nat) \<le> 1" by simp
  ultimately show ?thesis
    unfolding steady_def Suc_scale by blast
qed

lemma first_call:
  assumes cfg: "wait opts = 2 * h" "maxWait opts = Some W" and h: "0 < h" and W: "0 \<le> W"
  shows "lastCallTime (tick opts func 0 this0 args0 debounce_init) = Some 0"
    and "lastInvokeTime (tick opts func 0 this0 args0 debounce_init) = 0"
    and "invocations (tick opts func 0 this0 args0 debounce_init)
           = (if leading opts then [(0, Some this0, args0)] else [])"
    and "timers (tick opts func 0 this0 args0 debounce_init)
           = [(0, TimerExpired, 2 * h), (1, MaxTimerExpired, W)]"
    and "timeout (tick opts func 0 this0 args0 debounce_init) = Some 0"
    and "maxTimeout (tick opts func 0 this0 args0 debounce_init) = Some 1"
    and "nextHandle (tick opts func 0 this0 args0 debounce_init) = 2"
proof -
  have a: "advance opts func 0 debounce_init = (debounce_init :: ('a, 'b, 'c) debounce_state)"
    by (rule advance_idle) (simp add: debounce_init_def)
  show "lastCallTime (tick opts func 0 this0 args0 debounce_init) = Some 0"
    and "lastInvokeTime (tick opts func 0 this0 args0 debounce_init) = 0"
    and "invocations (tick opts func 0 this0 args0 debounce_init)
           = (if leading opts then [(0, Some this0, args0)] else [])"
    and "timers (tick opts func 0 this0 args0 debounce_init)
           = [(0, TimerExpired, 2 * h), (1, MaxTimerExpired, W)]"
    and "timeout (tick opts func 0 this0 args0 debounce_init) = Some 0"
    and "maxTimeout (tick opts func 0 this0 args0 debounce_init) = Some 1"
    and "nextHandle (tick opts func 0 this0 args0 debounce_init) = 2"
    using cfg h W unfolding tick_def a
    by (simp_all add: debounce_init_def eval_simps)
qed

lemma onset_base:
  assumes cfg: "wait opts = 2 * h" "maxWait opts = Some W" and h: "0 < h" and W: "2 * h \<le> W"
  shows "onset opts h W this args (serve opts func debounce_init (periodic h this args 2))"
proof -
  let ?s0 = "tick opts func 0 (this 0) (args 0) debounce_init"
  have W0: "0 \<le> W" using h W by linarith
  note f = first_call [OF cfg h W0, of func "this 0" "args 0"]
  have hW: "h < W" using h W by linarith
  have a: "advance opts func h ?s0 = ?s0"
    using h hW by (intro advance_all_later) (simp add: f)
  have "serve opts func debounce_init (periodic h this args 2)
          = tick opts func h (this 1) (args 1) ?s0"
    by (simp add: periodic_def tick_def numeral_2_eq_2)
  also have "\<dots> = fst (debounced opts func h (this 1) (args 1) ?s0)"
    by (subst tick_def) (simp only: a)
  finally have s: "serve opts func debounce_init (periodic h this args 2)
             = fst (debounced opts func h (this 1) (args 1) ?s0)" .
  show ?thesis
    unfolding s onset_def phase_def pre_log_def
    using cfg h hW by (simp add: fst_debounced shouldInvoke_def orZero_def Let_def f)
qed

lemma cadence_step:
  assumes c: "cadence opts h W this args k s"
      and cfg: "wait opts = 2 * h" "maxWait opts = Some W" "trailing opts"
      and h: "0 < h" and W: "3 * h \<le> W + gcd W h" "2 * h \<le> W"
  shows "cadence opts h W this args (Suc k)
           (tick opts func (int (Suc k) * h) (this (Suc k)) (args (Suc k)) s)"
proof -
  from c consider
      (onset) "k = 1" "onset opts h W this args s"
    | (ramp) "ramp opts h W this args k s"
    | (steady) "steady opts h W this args k s"
    unfolding cadence_def by blast
  then show ?thesis
  proof cases
    case onset
    show ?thesis
    proof (cases "W = 2 * h")
      case True
      from onset_step_both [OF onset(2) True cfg h, of func] onset(1)
      show ?thesis unfolding cadence_def by (simp add: numeral_2_eq_2)
    next
      case False
      with W(2) have "2 * h < W" by simp
      from onset_step_ramp [OF onset(2) this cfg(1,2) h, of func] onset(1)
      show ?thesis unfolding cadence_def by (simp add: numeral_2_eq_2)
    qed
  next
    case ramp
    consider "int k * h + h < W" | "W \<le> int k * h + h" by linarith
    then show ?thesis
    proof cases
      case 1
      from ramp_step [OF ramp 1 cfg(1,2) h] show ?thesis unfolding cadence_def by simp
    next
      case 2
      from ramp_exit [OF ramp 2 cfg h W(2)] show ?thesis unfolding cadence_def by simp
    qed
  next
    case steady
    from steady_step [OF steady cfg h W] show ?thesis unfolding cadence_def by simp
  qed
qed

lemma cadence_serve:
  assumes cfg: "wait opts = 2 * h" "maxWait opts = Some W" "trailing opts"
      and h: "0 < h" and W: "3 * h \<le> W + gcd W h" "2 * h \<le> W"
  shows "cadence opts h W this args (Suc n)
           (serve opts func debounce_init (periodic h this args (Suc (Suc n))))"
proof (induction n)
  case 0
  from onset_base [OF cfg(1,2) h W(2), of this args func] show ?case
    unfolding cadence_def by (simp add: numeral_2_eq_2)
next
  case (Suc n)
  from cadence_step [OF Suc cfg h W] show ?case
    by (simp add: serve_periodic_Suc [of _ _ _ _ _ _ "Suc (Suc n)"])
qed

lemma window_index:
  assumes "0 < W" and "int j * W \<le> x" and "x < int j * W + W"
  shows "nat (x div W) = j"
proof -
  have "(x - int j * W + int j * W) div W = (x - int j * W) div W + int j"
    using assms(1) by (subst div_mult_self1) simp_all
  moreover have "(x - int j * W) div W = 0"
    using assms by (intro div_pos_pos_trivial) simp_all
  ultimately have "x div W = int j" by simp
  then show ?thesis by simp
qed

lemma cadence_invocations:
  assumes "cadence opts h W this args k s" and "0 < h" and "2 * h \<le> W"
  shows "invocations s = pre_log opts this args @ forced h W this args (nat (int k * h div W))"
proof -
  have W: "0 < W" using assms(2,3) by linarith
  from assms(1) consider
      (onset) "k = 1" "onset opts h W this args s"
    | (ramp) "ramp opts h W this args k s"
    | (steady) "steady opts h W this args k s"
    unfolding cadence_def by blast
  then show ?thesis
  proof cases
    case onset
    have "nat (int k * h div W) = 0"
      using window_index [of W 0 "int k * h"] onset(1) assms(2,3) by simp
    with onset(2) show ?thesis unfolding onset_def phase_def by simp
  next
    case ramp
    then have "int k * h < W" unfolding ramp_def by simp
    then have "nat (int k * h div W) = 0"
      using window_index [of W 0 "int k * h"] assms(2) W by simp
    with ramp show ?thesis unfolding ramp_def phase_def by auto
  next
    case steady
    then obtain j where "int j * W \<le> int k * h" "int k * h < int j * W + W"
      and i: "invocations s = pre_log opts this args @ forced h W this args j"
      unfolding steady_def phase_def by blast
    then have "nat (int k * h div W) = j" using window_index [OF W] by blast
    with i show ?thesis by simp
  qed
qed

lemma forced_mem:
  assumes "1 \<le> j" and "j \<le> q"
  shows "\<exists>e \<in> set (forced h W this args q). fst e = int j * W"
proof -
  have "j \<in> set [1..<Suc q]" using assms by auto
  then show ?thesis unfolding forced_def by force
qed

text \<open>After a leading edge: both timers are still far, and the next call only records itself.\<close>

lemma tick_lead_quiet:
  assumes op: "opened s h W c log"
      and "wait opts = 2 * h" and "maxWait opts = Some W" and "0 < h" and "h < W"
  shows "\<exists>x. phase (tick opts func (c + h) this' args' s) (c + h) this' args' c log
               [(x, TimerExpired, c + 2 * h), (Suc x, MaxTimerExpired, c + W)] (Some x) (Some (Suc x))
             \<and> Suc x < nextHandle (tick opts func (c + h) this' args' s)"
proof -
  from op obtain x where s: "lastCallTime s = Some c" "lastArgs s = None" "lastThis s = None"
    "lastInvokeTime s = c" "invocations s = log"
    "timers s = [(x, TimerExpired, c + 2 * h), (Suc x, MaxTimerExpired, c + W)]"
    "timeout s = Some x" "maxTimeout s = Some (Suc x)" "nextHandle s = Suc (Suc x)"
    unfolding opened_def by blast
  have "advance opts func (c + h) s = s"
    using s(6) assms(4,5) by (intro advance_all_later) simp
  then have "phase (tick opts func (c + h) this' args' s) (c + h) this' args' c log
               [(x, TimerExpired, c + 2 * h), (Suc x, MaxTimerExpired, c + W)] (Some x) (Some (Suc x))
             \<and> Suc x < nextHandle (tick opts func (c + h) this' args' s)"
    using s assms(2-5) by (simp add: tick_def phase_def eval_simps)
  then show ?thesis ..
qed

text \<open>
  Without a trailing edge, at the end of the \<open>maxWait\<close> window: the primary timer drops the
  pending call, whether the escape timer fires after it (and is cleared) or before it (and
  does nothing); the call that comes then takes the leading edge.
\<close>

lemma tick_lead_both:
  assumes ph: "phase s tc this args p log [(hT, TimerExpired, t), (hM, MaxTimerExpired, t)]
                 (Some hT) (Some hM)"
      and "hT \<noteq> hM"
      and "wait opts = 2 * h" and "maxWait opts = Some W" and "0 < h"
      and "\<not> trailing opts" and "leading opts"
      and "t - tc = h" and "t - p = W" and "0 < W"
  shows "opened (tick opts func t this' args' s) h W t (log @ [(t, Some this', args')])"
proof -
  let ?s1 = "s\<lparr>timers := [], timeout := None, maxTimeout := None, lastArgs := None, lastThis := None\<rparr>"
  have d: "dispatch opts func t (hT, TimerExpired, t) s = ?s1"
    using assms by (simp add: phase_def eval_simps)
  have "advance opts func t s = advance opts func t ?s1"
    using advance_fire [of s "(hT, TimerExpired, t)" t opts func] ph d by (simp add: phase_def)
  also have "\<dots> = ?s1" by (simp add: advance_idle)
  finally have "advance opts func t s = ?s1" .
  then show ?thesis
    using assms by (simp add: tick_def phase_def opened_def eval_simps)
qed

lemma tick_lead_escape:
  assumes ph: "phase s tc this args p log [(hM, MaxTimerExpired, t), (hT, TimerExpired, t)]
                 (Some hT) (Some hM)"
      and "hT \<noteq> hM"
      and "wait opts = 2 * h" and "maxWait opts = Some W" and "0 < h"
      and "\<not> trailing opts" and "leading opts"
      and "t - tc = h" and "t - p = W" and "0 < W"
  shows "opened (tick opts func t this' args' s) h W t (log @ [(t, Some this', args')])"
proof -
  let ?s1 = "s\<lparr>timers := [(hT, TimerExpired, t)]\<rparr>"
  let ?s2 = "s\<lparr>timers := [], timeout := None, maxTimeout := None, lastArgs := None, lastThis := None\<rparr>"
  have d1: "dispatch opts func t (hM, MaxTimerExpired, t) s = ?s1"
    using assms by (simp add: phase_def eval_simps)
  have d2: "dispatch opts func t (hT, TimerExpired, t) ?s1 = ?s2"
    using assms by (simp add: phase_def eval_simps)
  have "advance opts func t s = advance opts func t ?s1"
    using advance_fire [of s "(hM, MaxTimerExpired, t)" t opts func] ph d1 by (simp add: phase_def)
  also have "\<dots> = advance opts func t ?s2"
    using advance_fire [of ?s1 "(hT, TimerExpired, t)" t opts func] d2 by simp
  also have "\<dots> = ?s2" by (simp add: advance_idle)
  finally have "advance opts func t s = ?s2" .
  then show ?thesis
    using assms by (simp add: tick_def phase_def opened_def eval_simps)
qed

lemma led_Suc:
  "led h W this args (Suc q) =
     led h W this args q
     @ [(int (Suc q) * W, Some (this (nat (int (Suc q) * W div h))),
         args (nat (int (Suc q) * W div h)))]"
  by (simp add: led_def)

text \<open>Two points of the grid of calls are at least \<open>h\<close> apart.\<close>

lemma grid_step:
  fixes h :: int
  assumes "0 < h" and "h dvd a" and "h dvd b" and "a < b"
  shows "a + h \<le> b"
proof -
  from assms(2,3) have "h dvd b - a" by (simp add: dvd_diff)
  moreover have "0 < b - a" using assms(4) by simp
  ultimately have "h \<le> b - a" by (rule zdvd_imp_le)
  then show ?thesis by linarith
qed

lemma lead_step:
  assumes c: "leading_cadence h W this args k s"
      and cfg: "wait opts = 2 * h" "maxWait opts = Some W" "\<not> trailing opts" "leading opts"
      and h: "0 < h" and W: "h dvd W" "2 * h \<le> W"
  shows "leading_cadence h W this args (Suc k)
           (tick opts func (int (Suc k) * h) (this (Suc k)) (args (Suc k)) s)"
proof -
  let ?c = "int k * h"
  let ?t = "?c + h"
  let ?s' = "tick opts func ?t (this (Suc k)) (args (Suc k)) s"
  from c obtain j where lo: "int j * W \<le> ?c" and hi: "?c < int j * W + W"
    and sh: "(?c = int j * W \<and> opened s h W ?c (led h W this args j))
           \<or> (int j * W < ?c
              \<and> (\<exists>hT hM. hT \<noteq> hM \<and> hM < nextHandle s
                    \<and> (phase s ?c (this k) (args k) (int j * W) (led h W this args j)
                          [(hT, TimerExpired, ?t), (hM, MaxTimerExpired, int j * W + W)]
                          (Some hT) (Some hM)
                       \<or> phase s ?c (this k) (args k) (int j * W) (led h W this args j)
                          [(hM, MaxTimerExpired, int j * W + W), (hT, TimerExpired, ?t)]
                          (Some hT) (Some hM))))"
    unfolding leading_cadence_def by blast
  let ?p = "int j * W"
  let ?log = "led h W this args j"
  have hW: "h < W" "0 < W" using h W(2) by linarith+
  have dv: "h dvd ?c" "h dvd ?p + W" "h dvd ?t" using W(1) by simp_all
  have nx: "?t \<le> ?p + W" using h dv(1,2) hi by (rule grid_step)
  have bk: "?t - ?c = h" by simp
  have p': "int (Suc j) * W = ?p + W" by (rule Suc_scale)
  have wrap: "leading_cadence h W this args (Suc k) ?s'"
    if op: "opened ?s' h W ?t (?log @ [(?t, Some (this (Suc k)), args (Suc k))])"
      and e: "?t = ?p + W"
  proof -
    have tq: "int (Suc j) * W = ?t" using p' e by simp
    have "int (Suc j) * W = int (Suc k) * h" unfolding tq by (rule Suc_scale [symmetric])
    then have "int (Suc j) * W div h = int (Suc k) * h div h" by (rule arg_cong)
    also have "\<dots> = int (Suc k)" using h by simp
    finally have ix: "nat (int (Suc j) * W div h) = Suc k" by simp
    have l: "led h W this args (Suc j) = ?log @ [(?t, Some (this (Suc k)), args (Suc k))]"
      unfolding led_Suc unfolding ix unfolding tq ..
    have "opened ?s' h W ?t (led h W this args (Suc j))" unfolding l by (rule op)
    moreover have "int (Suc j) * W \<le> ?t" unfolding tq ..
    moreover have "?t < int (Suc j) * W + W" unfolding tq using hW by simp
    moreover have "?t = int (Suc j) * W" unfolding tq ..
    ultimately show ?thesis unfolding leading_cadence_def Suc_scale [of k] by blast
  qed
  have stay: "leading_cadence h W this args (Suc k) ?s'"
    if ph: "phase ?s' ?t (this (Suc k)) (args (Suc k)) ?p ?log
              [(hM, MaxTimerExpired, ?p + W), (nextHandle s, TimerExpired, min (?t + h) (?p + W))]
              (Some (nextHandle s)) (Some hM)
            \<and> nextHandle ?s' = Suc (nextHandle s)"
      and lt: "?t < ?p + W" and ne: "hM < nextHandle s" for hM
  proof -
    have "?t + h \<le> ?p + W" using h dv(3,2) lt by (rule grid_step)
    then have m: "min (?t + h) (?p + W) = ?t + h" by (rule min.absorb1)
    from ph have "phase ?s' ?t (this (Suc k)) (args (Suc k)) ?p ?log
              [(hM, MaxTimerExpired, ?p + W), (nextHandle s, TimerExpired, ?t + h)]
              (Some (nextHandle s)) (Some hM)"
      unfolding m by blast
    moreover have "?p \<le> ?t" "?p < ?t" using lo h by linarith+
    moreover have "nextHandle s \<noteq> hM" "hM < nextHandle ?s'" using ne ph by simp_all
    ultimately show ?thesis unfolding leading_cadence_def Suc_scale [of k] using lt by blast
  qed
  from sh consider
      (opened) "?c = ?p" "opened s h W ?c ?log"
    | (first) hT hM where "hT \<noteq> hM" "hM < nextHandle s"
        "phase s ?c (this k) (args k) ?p ?log
           [(hT, TimerExpired, ?t), (hM, MaxTimerExpired, ?p + W)] (Some hT) (Some hM)"
    | (second) hT hM where "hT \<noteq> hM" "hM < nextHandle s"
        "phase s ?c (this k) (args k) ?p ?log
           [(hM, MaxTimerExpired, ?p + W), (hT, TimerExpired, ?t)] (Some hT) (Some hM)"
    by blast
  then have "leading_cadence h W this args (Suc k) ?s'"
  proof cases
    case opened
    from tick_lead_quiet [OF opened(2) cfg(1,2) h hW(1), of func "this (Suc k)" "args (Suc k)"]
    obtain x where "phase ?s' ?t (this (Suc k)) (args (Suc k)) ?c ?log
               [(x, TimerExpired, ?c + 2 * h), (Suc x, MaxTimerExpired, ?c + W)] (Some x) (Some (Suc x))"
      and nh: "Suc x < nextHandle ?s'"
      by blast
    then have "phase ?s' ?t (this (Suc k)) (args (Suc k)) ?p ?log
               [(x, TimerExpired, ?t + h), (Suc x, MaxTimerExpired, ?p + W)] (Some x) (Some (Suc x))"
      unfolding opened(1) by (simp add: algebra_simps)
    moreover have "x \<noteq> Suc x" by simp
    moreover have "?p \<le> ?t" "?p < ?t" using lo h by linarith+
    moreover have "?t < ?p + W" using opened(1) hW by linarith
    ultimately show ?thesis unfolding leading_cadence_def Suc_scale [of k] using nh by blast
  next
    case first
    show ?thesis
    proof (cases "?t < ?p + W")
      case True
      have win: "?t - ?p < W" using True by linarith
      from tick_resched_first [OF first(3,1) True cfg(1,2) h bk win, of func "this (Suc k)" "args (Suc k)"]
      show ?thesis using True first(2) by (rule stay)
    next
      case False
      with nx have e: "?t = ?p + W" by linarith
      from first(3) have ph: "phase s ?c (this k) (args k) ?p ?log
           [(hT, TimerExpired, ?t), (hM, MaxTimerExpired, ?t)] (Some hT) (Some hM)"
        unfolding e [symmetric] .
      have w: "?t - ?p = W" using e by simp
      from tick_lead_both [OF ph first(1) cfg(1,2) h cfg(3,4) bk w hW(2), of func "this (Suc k)" "args (Suc k)"]
      show ?thesis using e by (rule wrap)
    qed
  next
    case second
    show ?thesis
    proof (cases "?t < ?p + W")
      case True
      have win: "?t - ?p < W" using True by linarith
      from tick_resched_second [OF second(3,1) True cfg(1,2) h bk win, of func "this (Suc k)" "args (Suc k)"]
      show ?thesis using True second(2) by (rule stay)
    next
      case False
      with nx have e: "?t = ?p + W" by linarith
      from second(3) have ph: "phase s ?c (this k) (args k) ?p ?log
           [(hM, MaxTimerExpired, ?t), (hT, TimerExpired, ?t)] (Some hT) (Some hM)"
        unfolding e [symmetric] .
      have w: "?t - ?p = W" using e by simp
      from tick_lead_escape [OF ph second(1) cfg(1,2) h cfg(3,4) bk w hW(2), of func "this (Suc k)" "args (Suc k)"]
      show ?thesis using e by (rule wrap)
    qed
  qed
  then show ?thesis unfolding Suc_scale [of k h] .
qed

lemma lead_base:
  assumes cfg: "wait opts = 2 * h" "maxWait opts = Some W" "leading opts" and h: "0 < h" and W: "0 < W"
  shows "leading_cadence h W this args 0 (serve opts func debounce_init (periodic h this args 1))"
proof -
  let ?s0 = "tick opts func 0 (this 0) (args 0) debounce_init"
  have a: "advance opts func 0 debounce_init = (debounce_init :: ('b, 'a, 'c) debounce_state)"
    by (rule advance_idle) (simp add: debounce_init_def)
  have s: "serve opts func debounce_init (periodic h this args 1) = ?s0"
    by (simp add: periodic_def tick_def)
  have "opened ?s0 h W 0 (led h W this args 0)"
    using cfg h W unfolding tick_def a
    by (simp add: opened_def led_def debounce_init_def eval_simps)
  then have "opened ?s0 h W (int 0 * h) (led h W this args 0)" by simp
  moreover have "int 0 * W \<le> int 0 * h" "int 0 * h < int 0 * W + W" "int 0 * h = int 0 * W"
    using W by simp_all
  ultimately show ?thesis unfolding s leading_cadence_def by blast
qed

lemma lead_serve:
  assumes cfg: "wait opts = 2 * h" "maxWait opts = Some W" "\<not> trailing opts" "leading opts"
      and h: "0 < h" and W: "h dvd W" "2 * h \<le> W"
  shows "leading_cadence h W this args n (serve opts func debounce_init (periodic h this args (Suc n)))"
proof (induction n)
  case 0
  have "0 < W" using h W(2) by linarith
  from lead_base [OF cfg(1,2,4) h this, of this args func] show ?case by simp
next
  case (Suc n)
  from lead_step [OF Suc cfg h W] show ?case
    by (simp add: serve_periodic_Suc [of _ _ _ _ _ _ "Suc n"])
qed

lemma lead_invocations:
  assumes "leading_cadence h W this args k s" and "0 < W"
  shows "invocations s = led h W this args (nat (int k * h div W))"
proof -
  from assms(1) obtain j where j: "int j * W \<le> int k * h" "int k * h < int j * W + W"
    and i: "invocations s = led h W this args j"
    unfolding leading_cadence_def opened_def phase_def by blast
  from window_index [OF assms(2) j] i show ?thesis by simp
qed

lemma led_mem:
  assumes "j \<le> q"
  shows "\<exists>e \<in> set (led h W this args q). fst e = int j * W"
proof -
  have "j \<in> set [0..<Suc q]" using assms by auto
  then show ?thesis unfolding led_def by force
qed

text \<open>Every stretch of length \<open>W\<close> holds a multiple of \<open>W\<close>.\<close>

lemma window_hit:
  assumes W: "0 < W" and t: "0 \<le> t" "t + W \<le> x"
  obtains j where "1 \<le> j" "j \<le> nat (x div W)" "t \<le> int j * W" "int j * W \<le> t + W"
proof -
  let ?j = "nat (t div W) + 1"
  have d0: "0 \<le> t div W" using t(1) W by (simp add: pos_imp_zdiv_nonneg_iff)
  have j: "int ?j = t div W + 1" using d0 by simp
  have m: "t = (t div W) * W + t mod W" by simp
  have r: "0 \<le> t mod W" "t mod W < W" using W by simp_all
  have jW: "int ?j * W = (t div W) * W + W" unfolding j by (simp add: algebra_simps)
  have lo: "t \<le> int ?j * W" unfolding jW using m r by linarith
  have hi: "int ?j * W \<le> t + W" unfolding jW using m r by linarith
  have "int ?j * W \<le> x" using hi t(2) by linarith
  then have "int ?j * W div W \<le> x div W" by (rule zdiv_mono1) (rule W)
  then have "int ?j \<le> x div W" using W by simp
  then have "?j \<le> nat (x div W)" by linarith
  with lo hi show ?thesis by (intro that [of ?j]) simp_all
qed

subsection \<open>One primary timer where \<open>maxWait\<close> is not set\<close>

lemma one_timer_step:
  assumes "maxWait opts = None" and "\<not> is_flush ev" and "one_timer s"
  shows "one_timer (step opts func s ev)"
proof (cases ev)
  case (Call now this args)
  with assms(1,3) show ?thesis
    by (auto simp add: one_timer_def fst_debounced fst_leadingEdge fst_invokeFunc Let_def
        split: option.splits list.splits)
next
  case (Fire now h)
  with assms(1,3) show ?thesis
    by (auto simp add: one_timer_def fire_def dispatch_eq fst_timerExpired fst_trailingEdge
        fst_invokeFunc Let_def split: option.splits list.splits if_splits)
next
  case Cancel
  with assms(3) show ?thesis
    by (auto simp add: one_timer_def cancel_def clearTimeout_def Let_def
        split: option.splits list.splits)
next
  case (Flush now)
  with assms(2) show ?thesis by simp
qed

lemma one_primary_timer_without_maxWait:
  assumes "maxWait opts = None" and "\<not> list_ex is_flush evs"
  shows "length (primary_timers (run opts func debounce_init evs)) \<le> 1"
proof -
  have "one_timer s \<Longrightarrow> \<not> list_ex is_flush evs \<Longrightarrow> one_timer (run opts func s evs)" for s
    by (induction evs arbitrary: s) (simp_all add: one_timer_step [OF assms(1)])
  from this [of debounce_init] assms(2) have "one_timer (run opts func debounce_init evs)"
    by (simp add: one_timer_def debounce_init_def)
  then show ?thesis
    by (auto simp add: one_timer_def primary_timers_def split: option.splits list.splits)
qed

section \<open>The claims\<close>

text \<open>
  C1.  Claim: in every run of a debounced wrapper, whatever its options, at most one
  primary timer (one that will run \<^verbatim>\<open>timerExpired\<close>) is scheduled at any time; no call
  schedules a second one while an earlier one is still scheduled and uncancelled.

  The code breaks this when \<^verbatim>\<open>maxWait\<close> is set.  With \<^verbatim>\<open>wait = 100\<close> and
  \<^verbatim>\<open>maxWait = 50\<close>: the call at 0 schedules the primary timer 0 (due at 100) and the
  escape timer 1 (due at 50); the escape timer fires on time and \<^verbatim>\<open>trailingEdge\<close> sets
  \<^verbatim>\<open>timeout = null\<close> without \<^verbatim>\<open>clearTimeout\<close>; the call at 60 then schedules the
  primary timer 2 while timer 0 is still in the queue.  The \<^verbatim>\<open>maxWait\<close> branch of
  \<^verbatim>\<open>debounced\<close> does the same directly: it overwrites \<^verbatim>\<open>timeout\<close> with a new timer
  and never clears the old one (third statement).  Elsewhere the code keeps to one
  timer: \<^verbatim>\<open>debounced\<close> schedules only when \<^verbatim>\<open>timeout === null\<close>, \<^verbatim>\<open>cancel\<close> clears
  the timer before it forgets the handle, and \<^verbatim>\<open>trailingEdge\<close> does so for
  \<^verbatim>\<open>maxTimeout\<close>.  Without \<^verbatim>\<open>maxWait\<close> and without \<^verbatim>\<open>flush()\<close> that is enough:
  no run ever holds two primary timers (\<open>one_primary_timer_without_maxWait\<close>).
\<close>

theorem C1_second_primary_timer:
  fixes func :: "('a, 't, 'r) func"
  shows "primary_timers (run \<lparr>wait = 100, leading = False, trailing = True, maxWait = Some 50\<rparr> func
            debounce_init [Call 0 th1 a1, Fire 50 1])
          = [(0, TimerExpired, 100)]
       \<and> primary_timers (run \<lparr>wait = 100, leading = False, trailing = True, maxWait = Some 50\<rparr> func
            debounce_init [Call 0 th1 a1, Fire 50 1, Call 60 th2 a2])
          = [(0, TimerExpired, 100), (2, TimerExpired, 160)]
       \<and> primary_timers (run \<lparr>wait = 100, leading = False, trailing = False, maxWait = Some 50\<rparr> func
            debounce_init [Call 0 th1 a1, Call 60 th2 a2])
          = [(0, TimerExpired, 100), (2, TimerExpired, 160)]"
  by (simp add: run_def debounce_init_def fire_def deb_fst primary_timers_def
      shouldInvoke_def remainingWait_def orZero_def args_of_def Let_def)

text \<open>
  C2.  A debounced wrapper with \<^verbatim>\<open>leading = false\<close>, \<^verbatim>\<open>trailing = true\<close>, no
  \<^verbatim>\<open>maxWait\<close> and a delay that is not negative, fresh, on a host whose timers fire on
  time; calls in the order of time, each strictly less than the delay after the one
  before.  However far the clock then runs (to \<open>T\<close>), the wrapped function has been applied
  exactly once if \<open>T\<close> has reached the time of the last call plus the delay, at exactly
  that time and to the receiver and arguments of the last call, and not at all before.
\<close>

theorem C2_trailing_debounce_burst:
  assumes "0 \<le> wait opts" and "\<not> leading opts" and "trailing opts" and "maxWait opts = None"
      and "spaced (wait opts) t1 cs"
      and "last ((t1, this1, args1) # cs) = (tn, thisn, argsn)"
  shows "invocations (advance opts func T (serve opts func debounce_init ((t1, this1, args1) # cs)))
           = (if tn + wait opts \<le> T then [(tn + wait opts, Some thisn, argsn)] else [])"
proof -
  have "in_burst opts (serve opts func debounce_init ((t1, this1, args1) # cs)) tn thisn argsn"
    using burst_serve [OF assms(4) burst_first [OF assms(1,2,4)] assms(5,6)] by simp
  from burst_settle [OF this assms(4,3)] show ?thesis .
qed

theorem C2_trailing_debounce_burst_witness:
  "(0::int) \<le> wait (debounce_defaults 100)
   \<and> \<not> leading (debounce_defaults 100) \<and> trailing (debounce_defaults 100)
   \<and> maxWait (debounce_defaults 100) = None
   \<and> spaced (wait (debounce_defaults 100)) 0 [(50, (), [2::nat]), (120, (), [3])]
   \<and> invocations (advance (debounce_defaults 100) (\<lambda>th a. Returns (length a)) 219
        (serve (debounce_defaults 100) (\<lambda>th a. Returns (length a)) debounce_init
           ((0, (), [1]) # [(50, (), [2::nat]), (120, (), [3])]))) = []
   \<and> invocations (advance (debounce_defaults 100) (\<lambda>th a. Returns (length a)) 220
        (serve (debounce_defaults 100) (\<lambda>th a. Returns (length a)) debounce_init
           ((0, (), [1]) # [(50, (), [2::nat]), (120, (), [3])]))) = [(220, Some (), [3])]"
proof -
  have h: "(0::int) \<le> wait (debounce_defaults 100)"
    "\<not> leading (debounce_defaults 100)" "trailing (debounce_defaults 100)"
    "maxWait (debounce_defaults 100) = None"
    "spaced (wait (debounce_defaults 100)) 0 [(50, (), [2::nat]), (120, (), [3])]"
    "last ((0, (), [1]) # [(50, (), [2::nat]), (120, (), [3])]) = (120, (), [3])"
    by (simp_all add: debounce_defaults_def)
  have w: "wait (debounce_defaults 100) = 100" by (simp add: debounce_defaults_def)
  from C2_trailing_debounce_burst [OF h, where func = "\<lambda>th a. Returns (length a)" and T = 219]
       C2_trailing_debounce_burst [OF h, where func = "\<lambda>th a. Returns (length a)" and T = 220]
       h(1-5)
  show ?thesis unfolding w by simp
qed

text \<open>
  C3, as amended.  A debounced wrapper with \<^verbatim>\<open>leading = false\<close>, \<^verbatim>\<open>trailing = false\<close>
  and no \<^verbatim>\<open>maxWait\<close> never applies the wrapped function: not in any sequence of calls,
  timer firings, cancels and flushes, at any clock readings.
\<close>

theorem C3_swallow_without_maxWait:
  assumes "\<not> leading opts" and "\<not> trailing opts" and "maxWait opts = None"
  shows "invocations (run opts func debounce_init evs) = []"
proof -
  have "invocations (run opts func s evs) = invocations s" for s
    by (induction evs arbitrary: s) (simp_all add: invocations_step_off [OF assms])
  then show ?thesis by (simp add: debounce_init_def)
qed

theorem C3_swallow_without_maxWait_witness:
  "\<not> leading \<lparr>wait = 100, leading = False, trailing = False, maxWait = None\<rparr>
   \<and> \<not> trailing \<lparr>wait = 100, leading = False, trailing = False, maxWait = None\<rparr>
   \<and> maxWait \<lparr>wait = 100, leading = False, trailing = False, maxWait = None\<rparr> = None
   \<and> invocations (run \<lparr>wait = 100, leading = False, trailing = False, maxWait = None\<rparr>
        (\<lambda>th a. Returns (length a)) debounce_init
        [Call 0 () [1::nat], Call 50 () [2], Fire 100 0, Call 120 () [3], Flush 130]) = []"
  using C3_swallow_without_maxWait
    [where opts = "\<lparr>wait = 100, leading = False, trailing = False, maxWait = None\<rparr>"
       and func = "\<lambda>th a. Returns (length a)"
       and evs = "[Call 0 () [1::nat], Call 50 () [2], Fire 100 0, Call 120 () [3], Flush 130]"]
  by simp

text \<open>
  C3 as claimed covers every \<^verbatim>\<open>maxWait\<close> setting, and there it fails: the
  \<^verbatim>\<open>maxWait\<close> branch of \<^verbatim>\<open>debounced\<close> calls \<^verbatim>\<open>invokeFunc\<close> without looking at
  either flag.  With \<^verbatim>\<open>wait = 100\<close> and \<^verbatim>\<open>maxWait = 50\<close>, calls at 0 and 60 (the
  escape timer firing on time at 50 in between) apply the function at 60.
\<close>

theorem C3_counterexample:
  "invocations (run \<lparr>wait = 100, leading = False, trailing = False, maxWait = Some 50\<rparr>
      (\<lambda>th a. Returns (length a)) debounce_init [Call 0 () [1::nat], Fire 50 1, Call 60 () [2]])
   = [(60, Some (), [2])]"
  by (simp add: debounce_init_def fire_def deb_fst shouldInvoke_def orZero_def args_of_def Let_def)

text \<open>
  C4, as amended.  For both governors, in a run from the initial state whose clock
  readings are non-negative and never decrease, \<^verbatim>\<open>lastInvokeTime\<close> does not decrease
  across any stretch \<open>ys\<close> of calls, timer firings and flushes, whatever came before
  (\<open>xs\<close>, cancels included); \<^verbatim>\<open>cancel()\<close> resets it to 0.
\<close>

theorem C4_lastInvokeTime_monotone_without_cancel:
  assumes "0 \<le> t0" and "clock_from t0 (xs @ ys)" and "no_cancel ys"
  shows "lastInvokeTime (run opts func debounce_init xs)
           \<le> lastInvokeTime (run opts func debounce_init (xs @ ys))
       \<and> lastInvokeTime (run_thr topts func throttle_init xs)
           \<le> lastInvokeTime (run_thr topts func throttle_init (xs @ ys))
       \<and> lastInvokeTime (cancel s) = 0 \<and> lastInvokeTime (cancel_thr u) = 0"
proof -
  from assms(2) have cx: "clock_from t0 xs" and cy: "clock_from (clock_after t0 xs) ys"
    by (simp_all add: clock_from_append)
  have "lastInvokeTime (run opts func debounce_init xs) \<le> clock_after t0 xs"
    using lit_bounded_gen [of lastInvokeTime "step opts func" t0 debounce_init xs, OF lit_step]
      assms(1) cx
    by (simp add: run_def debounce_init_def)
  then have d: "lastInvokeTime (run opts func debounce_init xs)
                  \<le> lastInvokeTime (run opts func debounce_init (xs @ ys))"
    using lit_mono_gen [of lastInvokeTime "step opts func" "run opts func debounce_init xs"
        "clock_after t0 xs" ys, OF lit_step] cy assms(3)
    by (simp add: run_def)
  have "lastInvokeTime (run_thr topts func throttle_init xs) \<le> clock_after t0 xs"
    using lit_bounded_gen [of lastInvokeTime "step_thr topts func" t0 throttle_init xs, OF lit_step_thr]
      assms(1) cx
    by (simp add: run_thr_def throttle_init_def)
  then have t: "lastInvokeTime (run_thr topts func throttle_init xs)
                  \<le> lastInvokeTime (run_thr topts func throttle_init (xs @ ys))"
    using lit_mono_gen [of lastInvokeTime "step_thr topts func" "run_thr topts func throttle_init xs"
        "clock_after t0 xs" ys, OF lit_step_thr] cy assms(3)
    by (simp add: run_thr_def)
  have c: "lastInvokeTime (cancel s) = 0" "lastInvokeTime (cancel_thr u) = 0"
    by (simp_all add: cancel_def cancel_thr_def Let_def)
  from d t c show ?thesis by simp
qed

theorem C4_lastInvokeTime_monotone_without_cancel_witness:
  "(0::int) \<le> 0
   \<and> clock_from 0 ([Call 10 () [1::nat], Cancel] @ [Call 20 () [2], Fire 120 1, Flush 130])
   \<and> no_cancel [Call 20 () [2::nat], Fire 120 1, Flush 130]
   \<and> lastInvokeTime (run (debounce_defaults 100) (\<lambda>th a. Returns (length a)) debounce_init
        [Call 10 () [1::nat], Cancel])
      \<le> lastInvokeTime (run (debounce_defaults 100) (\<lambda>th a. Returns (length a)) debounce_init
        ([Call 10 () [1::nat], Cancel] @ [Call 20 () [2], Fire 120 1, Flush 130]))
   \<and> lastInvokeTime (run_thr (throttle_defaults 100) (\<lambda>th a. Returns (length a)) throttle_init
        [Call 10 () [1::nat], Cancel])
      \<le> lastInvokeTime (run_thr (throttle_defaults 100) (\<lambda>th a. Returns (length a)) throttle_init
        ([Call 10 () [1::nat], Cancel] @ [Call 20 () [2], Fire 120 1, Flush 130]))"
proof -
  have h: "(0::int) \<le> 0"
    "clock_from 0 ([Call 10 () [1::nat], Cancel] @ [Call 20 () [2], Fire 120 1, Flush 130])"
    "no_cancel [Call 20 () [2::nat], Fire 120 1, Flush 130]"
    by (simp_all add: no_cancel_def)
  from h C4_lastInvokeTime_monotone_without_cancel [OF h] show ?thesis by blast
qed

text \<open>
  C4 as claimed includes \<^verbatim>\<open>cancel()\<close>, which assigns \<^verbatim>\<open>lastInvokeTime = 0\<close> in both
  files: after an invocation at time 100 a cancel lowers it from 100 to 0.
\<close>

theorem C4_counterexample:
  "lastInvokeTime (run_thr (throttle_defaults 100) (\<lambda>th a. Returns (length a)) throttle_init
      [Call 100 () [1::nat]]) = 100
   \<and> lastInvokeTime (run_thr (throttle_defaults 100) (\<lambda>th a. Returns (length a)) throttle_init
      [Call 100 () [1::nat], Cancel]) = 0
   \<and> lastInvokeTime (run (debounce_defaults 100) (\<lambda>th a. Returns (length a)) debounce_init
      [Call 100 () [1::nat]]) = 100
   \<and> lastInvokeTime (run (debounce_defaults 100) (\<lambda>th a. Returns (length a)) debounce_init
      [Call 100 () [1::nat], Cancel]) = 0"
  by (simp add: throttle_defaults_def debounce_defaults_def debounce_init_def throttle_init_def
      deb_fst thr_fst shouldInvoke_def shouldInvoke_thr_def cancel_def cancel_thr_def
      clearTimeout_def Let_def)

text \<open>
  C5, as amended.  A delay \<open>2 * h\<close> with \<open>h > 0\<close>, \<^verbatim>\<open>maxWait = W\<close>, calls at 0,
  \<open>h\<close>, ..., \<open>n * h\<close> to a fresh wrapper, timers firing on time.  If \<^verbatim>\<open>trailing = true\<close>
  and \<open>3 * h \<le> W + gcd W h\<close> (so for every \<open>W\<close> from 1.5 times the delay on, and for
  every multiple of \<open>h\<close> from the delay on), the invocations right after the call at
  \<open>n * h\<close> are exactly those at \<open>W\<close>, \<open>2 * W\<close>, ... up to \<open>n * h\<close>, each applied to
  the receiver and arguments of the last call made before it (and one at 0, applied to
  the first call's, if \<^verbatim>\<open>leading\<close>).  If \<^verbatim>\<open>trailing = false\<close>, \<^verbatim>\<open>leading = true\<close> and
  \<open>W\<close> is a multiple of \<open>h\<close>, at least the delay, they are exactly those at 0, \<open>W\<close>,
  \<open>2 * W\<close>, ..., each applied to the receiver and arguments of the call made at that
  time.  Either way every interval of length \<open>W\<close> between 0 and \<open>n * h\<close>, ends
  included, holds an invocation.
\<close>

theorem C5_maxWait_cadence:
  assumes "0 < h" and "wait opts = 2 * h" and "maxWait opts = Some W"
      and "if trailing opts then 3 * h \<le> W + gcd W h else leading opts \<and> h dvd W \<and> 2 * h \<le> W"
  shows "invocations (serve opts func debounce_init (periodic h this args (Suc n)))
           = (if trailing opts
              then pre_log opts this args @ forced h W this args (nat (int n * h div W))
              else led h W this args (nat (int n * h div W)))
       \<and> (\<forall>t. 0 \<le> t \<and> t + W \<le> int n * h \<longrightarrow>
             (\<exists>e \<in> set (invocations (serve opts func debounce_init (periodic h this args (Suc n)))).
                t \<le> fst e \<and> fst e \<le> t + W))"
proof -
  let ?s = "serve opts func debounce_init (periodic h this args (Suc n))"
  let ?q = "nat (int n * h div W)"
  have W2: "2 * h \<le> W"
  proof (cases "trailing opts")
    case True
    have "gcd W h \<le> h" using assms(1) by (rule gcd_le2_int)
    with True assms(4) show ?thesis by simp
  next
    case False
    with assms(4) show ?thesis by simp
  qed
  then have W: "0 < W" using assms(1) by linarith
  have inv: "invocations ?s = (if trailing opts
              then pre_log opts this args @ forced h W this args ?q
              else led h W this args ?q)"
  proof (cases "trailing opts")
    case False
    with assms(4) have l: "leading opts" "h dvd W" by simp_all
    from lead_invocations [OF lead_serve [OF assms(2,3) False l(1) assms(1) l(2) W2, of this args n func] W]
    show ?thesis using False by simp
  next
    case True
    with assms(4) have g: "3 * h \<le> W + gcd W h" by simp
    show ?thesis
    proof (cases n)
      case 0
      have "?s = tick opts func 0 (this 0) (args 0) debounce_init"
        unfolding 0 by (simp add: periodic_def tick_def)
      then show ?thesis
        using first_call(3) [OF assms(2,3,1) less_imp_le [OF W], of func "this 0" "args 0"] True
        by (simp add: 0 pre_log_def)
    next
      case (Suc n')
      from cadence_invocations [OF cadence_serve [OF assms(2,3) True assms(1) g W2, of this args n' func]
          assms(1) W2]
      show ?thesis unfolding Suc using True by simp
    qed
  qed
  have win: "\<exists>e \<in> set (invocations ?s). t \<le> fst e \<and> fst e \<le> t + W"
    if t: "0 \<le> t" "t + W \<le> int n * h" for t
  proof -
    from window_hit [OF W t] obtain j where j: "1 \<le> j" "j \<le> ?q" "t \<le> int j * W" "int j * W \<le> t + W"
      by blast
    have "\<exists>e \<in> set (invocations ?s). fst e = int j * W"
    proof (cases "trailing opts")
      case True
      from forced_mem [OF j(1,2), of h W this args] show ?thesis unfolding inv using True by auto
    next
      case False
      from led_mem [OF j(2), of h W this args] show ?thesis unfolding inv using False by auto
    qed
    with j(3,4) show ?thesis by force
  qed
  from inv win show ?thesis by blast
qed

theorem C5_maxWait_cadence_witness:
  "(0::int) < 50
   \<and> wait \<lparr>wait = 100, leading = False, trailing = True, maxWait = Some 175\<rparr> = 2 * 50
   \<and> maxWait \<lparr>wait = 100, leading = False, trailing = True, maxWait = Some 175\<rparr> = Some 175
   \<and> trailing \<lparr>wait = 100, leading = False, trailing = True, maxWait = Some 175\<rparr>
   \<and> 3 * 50 \<le> 175 + gcd (175::int) 50
   \<and> invocations (serve \<lparr>wait = 100, leading = False, trailing = True, maxWait = Some 175\<rparr>
        (\<lambda>th a. Returns (length a)) debounce_init (periodic 50 (\<lambda>k. ()) (\<lambda>k. [k]) (Suc 11)))
      = [(175, Some (), [3]), (350, Some (), [6]), (525, Some (), [10])]
   \<and> (\<exists>e \<in> set (invocations (serve \<lparr>wait = 100, leading = False, trailing = True, maxWait = Some 175\<rparr>
        (\<lambda>th a. Returns (length a)) debounce_init (periodic 50 (\<lambda>k. ()) (\<lambda>k. [k]) (Suc 11)))).
          176 \<le> fst e \<and> fst e \<le> 176 + 175)
   \<and> leading \<lparr>wait = 100, leading = True, trailing = False, maxWait = Some 200\<rparr>
   \<and> (50::int) dvd 200
   \<and> invocations (serve \<lparr>wait = 100, leading = True, trailing = False, maxWait = Some 200\<rparr>
        (\<lambda>th a. Returns (length a)) debounce_init (periodic 50 (\<lambda>k. ()) (\<lambda>k. [k]) (Suc 8)))
      = [(0, Some (), [0]), (200, Some (), [4]), (400, Some (), [8])]"
proof -
  let ?o = "\<lparr>wait = 100, leading = False, trailing = True, maxWait = Some 175\<rparr>"
  let ?l = "\<lparr>wait = 100, leading = True, trailing = False, maxWait = Some 200\<rparr>"
  have g: "3 * 50 \<le> 175 + gcd (175::int) 50"
    using gcd_ge_0_int [of 175 50] by linarith
  have h: "(0::int) < 50" "wait ?o = 2 * 50" "maxWait ?o = Some 175"
    "if trailing ?o then 3 * 50 \<le> 175 + gcd (175::int) 50
     else leading ?o \<and> (50::int) dvd 175 \<and> 2 * 50 \<le> (175::int)"
    using g by simp_all
  have k: "(0::int) < 50" "wait ?l = 2 * 50" "maxWait ?l = Some 200"
    "if trailing ?l then 3 * 50 \<le> 200 + gcd (200::int) 50
     else leading ?l \<and> (50::int) dvd 200 \<and> 2 * 50 \<le> (200::int)"
    by simp_all
  note C = C5_maxWait_cadence [OF h, where func = "\<lambda>th a. Returns (length a)"
      and this = "\<lambda>k. ()" and args = "\<lambda>k. [k]" and n = 11]
  note L = C5_maxWait_cadence [OF k, where func = "\<lambda>th a. Returns (length a)"
      and this = "\<lambda>k. ()" and args = "\<lambda>k. [k]" and n = 8]
  have e1: "(if trailing ?o
             then pre_log ?o (\<lambda>k. ()) (\<lambda>k. [k]) @ forced 50 175 (\<lambda>k. ()) (\<lambda>k. [k]) (nat (int 11 * 50 div 175))
             else led 50 175 (\<lambda>k. ()) (\<lambda>k. [k]) (nat (int 11 * 50 div 175)))
          = [(175, Some (), [3::nat]), (350, Some (), [6]), (525, Some (), [10])]"
    by (simp add: pre_log_def forced_def upt_rec)
  have e2: "(if trailing ?l
             then pre_log ?l (\<lambda>k. ()) (\<lambda>k. [k]) @ forced 50 200 (\<lambda>k. ()) (\<lambda>k. [k]) (nat (int 8 * 50 div 200))
             else led 50 200 (\<lambda>k. ()) (\<lambda>k. [k]) (nat (int 8 * 50 div 200)))
          = [(0, Some (), [0::nat]), (200, Some (), [4]), (400, Some (), [8])]"
    by (simp add: led_def upt_rec)
  from C have 1: "invocations (serve ?o (\<lambda>th a. Returns (length a)) debounce_init
        (periodic 50 (\<lambda>k. ()) (\<lambda>k. [k]) (Suc 11)))
      = [(175, Some (), [3::nat]), (350, Some (), [6]), (525, Some (), [10])]"
    unfolding e1 by (rule conjunct1)
  from L have 2: "invocations (serve ?l (\<lambda>th a. Returns (length a)) debounce_init
        (periodic 50 (\<lambda>k. ()) (\<lambda>k. [k]) (Suc 8)))
      = [(0, Some (), [0::nat]), (200, Some (), [4]), (400, Some (), [8])]"
    unfolding e2 by (rule conjunct1)
  have 3: "(0::int) \<le> 176 \<and> 176 + 175 \<le> int 11 * 50" by simp
  from conjunct2 [OF C, rule_format, OF 3]
  have 4: "\<exists>e \<in> set (invocations (serve ?o (\<lambda>th a. Returns (length a)) debounce_init
        (periodic 50 (\<lambda>k. ()) (\<lambda>k. [k]) (Suc 11)))). 176 \<le> fst e \<and> fst e \<le> 176 + 175" .
  have 5: "wait ?o = 2 * 50" "maxWait ?o = Some 175" "trailing ?o" "leading ?l" "(50::int) dvd 200"
    by simp_all
  from h(1) 5 g 1 4 2 show ?thesis by blast
qed

text \<open>
  C5 as claimed holds for any \<^verbatim>\<open>maxWait = W\<close> and any edges, and there it fails.  With
  the default edges, \<^verbatim>\<open>wait = 100\<close> and \<^verbatim>\<open>maxWait = 110\<close>, the calls at 0, 50, ...,
  350 lead to invocations at 110, 220 and 350 only: none in the interval from 221 to 331.
  After an invocation that falls between two calls, the next call starts a fresh primary
  timer, due a full delay later, and that timer is the first to notice that \<^verbatim>\<open>maxWait\<close>
  is over: with the call up to \<open>h - gcd W h\<close> after the invocation, that is in time only
  if \<open>3 * h \<le> W + gcd W h\<close>.  With the leading edge only and \<^verbatim>\<open>maxWait = 175\<close>, which
  is not a multiple of 50, the invocations are at 0, 200 and 400, none in the interval
  from 1 to 176: the leading edge is taken by the first call after the window has ended.
  With both edges off (and \<^verbatim>\<open>maxWait = 200\<close>) nothing is ever applied.
\<close>

theorem C5_counterexample:
  "invocations (serve \<lparr>wait = 100, leading = False, trailing = True, maxWait = Some 110\<rparr>
      (\<lambda>th a. Returns (length a)) debounce_init
      [(0, (), [0::nat]), (50, (), [1]), (100, (), [2]), (150, (), [3]),
       (200, (), [4]), (250, (), [5]), (300, (), [6]), (350, (), [7])])
     = [(110, Some (), [2]), (220, Some (), [4]), (350, Some (), [6])]
   \<and> \<not> (\<exists>e \<in> set (invocations
        (serve \<lparr>wait = 100, leading = False, trailing = True, maxWait = Some 110\<rparr>
          (\<lambda>th a. Returns (length a)) debounce_init
          [(0, (), [0::nat]), (50, (), [1]), (100, (), [2]), (150, (), [3]),
           (200, (), [4]), (250, (), [5]), (300, (), [6]), (350, (), [7])])).
        221 \<le> fst e \<and> fst e \<le> 221 + 110)
   \<and> invocations (serve \<lparr>wait = 100, leading = True, trailing = False, maxWait = Some 175\<rparr>
      (\<lambda>th a. Returns (length a)) debounce_init
      [(0, (), [0::nat]), (50, (), [1]), (100, (), [2]), (150, (), [3]),
       (200, (), [4]), (250, (), [5]), (300, (), [6]), (350, (), [7]), (400, (), [8])])
     = [(0, Some (), [0]), (200, Some (), [4]), (400, Some (), [8])]
   \<and> \<not> (\<exists>e \<in> set (invocations
        (serve \<lparr>wait = 100, leading = True, trailing = False, maxWait = Some 175\<rparr>
          (\<lambda>th a. Returns (length a)) debounce_init
          [(0, (), [0::nat]), (50, (), [1]), (100, (), [2]), (150, (), [3]),
           (200, (), [4]), (250, (), [5]), (300, (), [6]), (350, (), [7]), (400, (), [8])])).
        1 \<le> fst e \<and> fst e \<le> 1 + 175)
   \<and> invocations (serve \<lparr>wait = 100, leading = False, trailing = False, maxWait = Some 200\<rparr>
      (\<lambda>th a. Returns (length a)) debounce_init
      [(0, (), [0::nat]), (50, (), [1]), (100, (), [2]), (150, (), [3]),
       (200, (), [4]), (250, (), [5]), (300, (), [6]), (350, (), [7]), (400, (), [8])])
     = []"
proof -
  have 1: "invocations (serve \<lparr>wait = 100, leading = False, trailing = True, maxWait = Some 110\<rparr>
      (\<lambda>th a. Returns (length a)) debounce_init
      [(0, (), [0::nat]), (50, (), [1]), (100, (), [2]), (150, (), [3]),
       (200, (), [4]), (250, (), [5]), (300, (), [6]), (350, (), [7])])
     = [(110, Some (), [2]), (220, Some (), [4]), (350, Some (), [6])]"
    by (simp add: debounce_init_def advance_idle advance_wait advance_fire
        deb_fst shouldInvoke_def remainingWait_def orZero_def args_of_def result_after_def Let_def)
  have 2: "invocations (serve \<lparr>wait = 100, leading = True, trailing = False, maxWait = Some 175\<rparr>
      (\<lambda>th a. Returns (length a)) debounce_init
      [(0, (), [0::nat]), (50, (), [1]), (100, (), [2]), (150, (), [3]),
       (200, (), [4]), (250, (), [5]), (300, (), [6]), (350, (), [7]), (400, (), [8])])
     = [(0, Some (), [0]), (200, Some (), [4]), (400, Some (), [8])]"
    by (simp add: debounce_init_def advance_idle advance_wait advance_fire
        deb_fst shouldInvoke_def remainingWait_def orZero_def args_of_def result_after_def Let_def)
  have 3: "invocations (serve \<lparr>wait = 100, leading = False, trailing = False, maxWait = Some 200\<rparr>
      (\<lambda>th a. Returns (length a)) debounce_init
      [(0, (), [0::nat]), (50, (), [1]), (100, (), [2]), (150, (), [3]),
       (200, (), [4]), (250, (), [5]), (300, (), [6]), (350, (), [7]), (400, (), [8])])
     = []"
    by (simp add: debounce_init_def advance_idle advance_wait advance_fire
        deb_fst shouldInvoke_def remainingWait_def orZero_def args_of_def result_after_def Let_def)
  show ?thesis unfolding 1 2 3 by simp
qed

text \<open>
  C6.  A throttled wrapper with window 100 and the default options; three calls at
  time 0, one call at time 50, the timer fires at 100.  The wrapped function is applied
  exactly twice: at 0 to the arguments of the first call, and at 100 to the arguments
  of the call made at 50.  The calls after the first apply nothing; the one timer in the
  queue (handle 0) is due at 100.
\<close>

theorem C6_throttle_scenario:
  fixes func :: "('a, 't, 'r) func"
  shows "invocations (run_thr (throttle_defaults 100) func throttle_init
            [Call 0 th1 a1, Call 0 th2 a2, Call 0 th3 a3]) = [(0, Some th1, a1)]
       \<and> invocations (run_thr (throttle_defaults 100) func throttle_init
            [Call 0 th1 a1, Call 0 th2 a2, Call 0 th3 a3, Call 50 th4 a4]) = [(0, Some th1, a1)]
       \<and> timers (run_thr (throttle_defaults 100) func throttle_init
            [Call 0 th1 a1, Call 0 th2 a2, Call 0 th3 a3, Call 50 th4 a4]) = [(0, TimerExpired, 100)]
       \<and> invocations (run_thr (throttle_defaults 100) func throttle_init
            [Call 0 th1 a1, Call 0 th2 a2, Call 0 th3 a3, Call 50 th4 a4, Fire 100 0])
          = [(0, Some th1, a1), (100, Some th4, a4)]"
  by (simp add: run_thr_def throttle_defaults_def throttle_init_def fire_thr_def thr_fst
      shouldInvoke_thr_def remainingWait_thr_def orZero_def args_of_def Let_def)

text \<open>
  C7, as amended.  A fresh debounced wrapper, whatever its options; one or more calls
  and then \<^verbatim>\<open>cancel()\<close>, before any timer fires; where \<^verbatim>\<open>maxWait\<close> is set, the calls
  come in the order of time and before the two timers that the first call schedules are
  due (without \<^verbatim>\<open>maxWait\<close>, at any clock readings).  Afterwards no timer is left in the
  host's queue, \<^verbatim>\<open>cancel\<close> having cleared the primary timer and the escape timer, so no
  callback scheduled before the cancel can run; the wrapped function has been applied by
  the leading edge of the first call if \<^verbatim>\<open>leading = true\<close> and not at all otherwise; and
  the state is the initial one, but for the host's handle counter and, after a leading
  invocation, \<^verbatim>\<open>result\<close>.
\<close>

theorem C7_cancel_before_timer:
  assumes "maxWait opts = None \<or> before_due opts t t cs"
  shows "timers (run opts func debounce_init (calls ((t, this, args) # cs) @ [Cancel])) = []
       \<and> invocations (run opts func debounce_init (calls ((t, this, args) # cs) @ [Cancel]))
           = (if leading opts then [(t, Some this, args)] else [])
       \<and> run opts func debounce_init (calls ((t, this, args) # cs) @ [Cancel])
           = debounce_init
               \<lparr>nextHandle := (if maxWait opts = None then 1 else 2),
                invocations := (if leading opts then [(t, Some this, args)] else []),
                result := (if leading opts then result_after (func (Some this) args) None
                           else None)\<rparr>"
proof -
  let ?s1 = "step opts func debounce_init (Call t this args)"
  let ?s0 = "debounce_init\<lparr>lastArgs := Some args, lastThis := Some this,
                    lastCallTime := Some t, lastInvokeTime := t,
                    timers := (0, TimerExpired, t + max 0 (wait opts))
                              # (case maxWait opts of None \<Rightarrow> []
                                 | Some mw \<Rightarrow> [(1, MaxTimerExpired, t + max 0 mw)]),
                    nextHandle := (if maxWait opts = None then 1 else 2), timeout := Some 0,
                    maxTimeout := (if maxWait opts = None then None else Some 1)\<rparr>"
  have s1: "?s1 = (if leading opts
                   then ?s0\<lparr>lastArgs := None, lastThis := None,
                           invocations := [(t, Some this, args)],
                           result := result_after (func (Some this) args) None\<rparr>
                   else ?s0)"
    by (simp add: fst_debounced fst_leadingEdge fst_invokeFunc shouldInvoke_def debounce_init_def
        args_of_def Let_def split: option.splits)
  then have p: "timeout ?s1 \<noteq> None" "lastInvokeTime ?s1 = t" "lastCallTime ?s1 = Some t"
    by simp_all
  have "\<exists>a th t'. run opts func ?s1 (calls cs) = ?s1\<lparr>lastArgs := a, lastThis := th, lastCallTime := t'\<rparr>"
    using assms
  proof
    assume "maxWait opts = None"
    from calls_while_pending [OF this p(1)] show ?thesis .
  next
    assume "before_due opts t t cs"
    from calls_before_due [OF p(1) p(3) p(2) order_refl this] show ?thesis .
  qed
  then obtain a th t' where
    "run opts func ?s1 (calls cs) = ?s1\<lparr>lastArgs := a, lastThis := th, lastCallTime := t'\<rparr>"
    by blast
  then have "run opts func debounce_init (calls ((t, this, args) # cs) @ [Cancel]) = cancel ?s1"
    by (simp add: run_append cancel_forgets_call)
  also have "\<dots> = debounce_init
               \<lparr>nextHandle := (if maxWait opts = None then 1 else 2),
                invocations := (if leading opts then [(t, Some this, args)] else []),
                result := (if leading opts then result_after (func (Some this) args) None
                           else None)\<rparr>"
    unfolding s1 by (simp add: cancel_def clearTimeout_def debounce_init_def Let_def split: option.splits)
  finally have eq: "run opts func debounce_init (calls ((t, this, args) # cs) @ [Cancel])
      = debounce_init
               \<lparr>nextHandle := (if maxWait opts = None then 1 else 2),
                invocations := (if leading opts then [(t, Some this, args)] else []),
                result := (if leading opts then result_after (func (Some this) args) None
                           else None)\<rparr>" .
  show ?thesis unfolding eq by (simp add: debounce_init_def)
qed

theorem C7_cancel_before_timer_witness:
  "before_due \<lparr>wait = 100, leading = False, trailing = True, maxWait = Some 200\<rparr> 0 0
      [(50, (), [2::nat]), (90, (), [3])]
   \<and> timers (run \<lparr>wait = 100, leading = False, trailing = True, maxWait = Some 200\<rparr>
        (\<lambda>th a. Returns (length a)) debounce_init [Call 0 () [1::nat], Call 50 () [2], Call 90 () [3]])
      = [(0, TimerExpired, 100), (1, MaxTimerExpired, 200)]
   \<and> timers (run \<lparr>wait = 100, leading = False, trailing = True, maxWait = Some 200\<rparr>
        (\<lambda>th a. Returns (length a)) debounce_init
        (calls ((0, (), [1::nat]) # [(50, (), [2]), (90, (), [3])]) @ [Cancel])) = []
   \<and> invocations (run \<lparr>wait = 100, leading = False, trailing = True, maxWait = Some 200\<rparr>
        (\<lambda>th a. Returns (length a)) debounce_init
        (calls ((0, (), [1::nat]) # [(50, (), [2]), (90, (), [3])]) @ [Cancel])) = []"
proof -
  let ?o = "\<lparr>wait = 100, leading = False, trailing = True, maxWait = Some 200\<rparr>"
  have h: "before_due ?o 0 0 [(50, (), [2::nat]), (90, (), [3])]" by simp
  then have h': "maxWait ?o = None \<or> before_due ?o 0 0 [(50, (), [2::nat]), (90, (), [3])]" ..
  have q: "timers (run ?o (\<lambda>th a. Returns (length a)) debounce_init
             [Call 0 () [1::nat], Call 50 () [2], Call 90 () [3]])
           = [(0, TimerExpired, 100), (1, MaxTimerExpired, 200)]"
    by (simp add: debounce_init_def fst_debounced fst_leadingEdge shouldInvoke_def orZero_def Let_def)
  note C = C7_cancel_before_timer [OF h', where func = "\<lambda>th a. Returns (length a)"
      and this = "()" and args = "[1::nat]"]
  have l: "\<not> leading ?o" by simp
  from C have a: "timers (run ?o (\<lambda>th a. Returns (length a)) debounce_init
        (calls ((0, (), [1::nat]) # [(50, (), [2]), (90, (), [3])]) @ [Cancel])) = []"
    by (rule conjunct1)
  from C have "invocations (run ?o (\<lambda>th a. Returns (length a)) debounce_init
        (calls ((0, (), [1::nat]) # [(50, (), [2]), (90, (), [3])]) @ [Cancel]))
      = (if leading ?o then [(0, Some (), [1])] else [])"
    by (rule conjunct1 [OF conjunct2])
  then have b: "invocations (run ?o (\<lambda>th a. Returns (length a)) debounce_init
        (calls ((0, (), [1::nat]) # [(50, (), [2]), (90, (), [3])]) @ [Cancel])) = []"
    unfolding if_not_P [OF l] .
  from h q a b show ?thesis by blast
qed

text \<open>
  C7 as claimed promises zero invocations for every wrapper.  With \<^verbatim>\<open>leading = true\<close>
  the first call applies the function at once, before the cancel (the repository's test
  of a cancel after a leading execution expects that one application).
\<close>

theorem C7_counterexample:
  "invocations (run \<lparr>wait = 100, leading = True, trailing = True, maxWait = None\<rparr>
      (\<lambda>th a. Returns (length a)) debounce_init (calls [(0, (), [1::nat])] @ [Cancel]))
   = [(0, Some (), [1])]"
  by (simp add: debounce_init_def deb_fst shouldInvoke_def cancel_def clearTimeout_def args_of_def Let_def)

text \<open>
  C8, as amended.  A debounced wrapper, whatever its options, that holds the pending
  arguments of a call made at \<open>tc\<close> and has a primary timer scheduled, its queue
  sound as in every state reached from the initial one (\<open>sound_queue_run\<close>).
  \<^verbatim>\<open>flush()\<close> at \<open>t\<close>, and letting the clock run with no further calls until the
  pending work has fired and the queue is empty (to any \<open>T\<close> from \<open>tc + wait\<close> on by
  which every scheduled timer is due), apply the wrapped function equally often (once if
  \<^verbatim>\<open>trailing\<close>, else never) to the same receiver and arguments, and leave \<^verbatim>\<open>timeout\<close>,
  \<^verbatim>\<open>maxTimeout\<close>, \<^verbatim>\<open>lastArgs\<close>, \<^verbatim>\<open>lastThis\<close>, \<^verbatim>\<open>result\<close> and \<^verbatim>\<open>lastCallTime\<close>
  the same.  \<^verbatim>\<open>lastInvokeTime\<close> is the time of the invocation: \<open>t\<close> after the flush,
  the time at which a timer took the trailing edge after the wait.
\<close>

theorem C8_flush_like_timer:
  assumes "lastArgs s = Some args" and "lastCallTime s = Some tc"
      and "timeout s \<noteq> None" and "live_queue T s" and "tc + wait opts \<le> T"
  shows "invocations (fst (flush opts func t s))
           = invocations s @ (if trailing opts then [(t, lastThis s, args)] else [])
       \<and> invocations (advance opts func T s)
           = invocations s
             @ (if trailing opts then [(lastInvokeTime (advance opts func T s), lastThis s, args)] else [])
       \<and> lastInvokeTime (fst (flush opts func t s)) = (if trailing opts then t else lastInvokeTime s)
       \<and> (trailing opts \<or> lastInvokeTime (advance opts func T s) = lastInvokeTime s)
       \<and> timeout (advance opts func T s) = timeout (fst (flush opts func t s))
       \<and> maxTimeout (advance opts func T s) = maxTimeout (fst (flush opts func t s))
       \<and> lastArgs (advance opts func T s) = lastArgs (fst (flush opts func t s))
       \<and> lastThis (advance opts func T s) = lastThis (fst (flush opts func t s))
       \<and> result (advance opts func T s) = result (fst (flush opts func t s))
       \<and> lastCallTime (advance opts func T s) = lastCallTime (fst (flush opts func t s))
       \<and> timers (advance opts func T s) = []"
proof -
  let ?u = "advance opts func T s"
  have "settling opts func s s" using assms(3) by (simp add: settling_def)
  from settling_advance [OF assms(1,2,5) this assms(4)]
  have st: "settling opts func s ?u" and em: "timers ?u = []" and lq: "live_queue T ?u"
    by simp_all
  from lq em have to: "timeout ?u = None"
    unfolding live_queue_def sound_queue_def by (cases "timeout ?u") auto
  with st have u: "lastCallTime ?u = lastCallTime s" "lastArgs ?u = None" "lastThis ?u = None"
    "maxTimeout ?u = None"
    "if trailing opts
     then result ?u = result_after (func (lastThis s) args) (result s)
        \<and> invocations ?u = invocations s @ [(lastInvokeTime ?u, lastThis s, args)]
     else result ?u = result s \<and> invocations ?u = invocations s
        \<and> lastInvokeTime ?u = lastInvokeTime s"
    unfolding settling_def using assms(1) by (simp_all add: args_of_def)
  have f: "fst (flush opts func t s) = fst (trailingEdge opts func t s)"
    using assms(3) by (auto simp add: fst_flush)
  show ?thesis
    unfolding f using assms(1) to u em
    by (cases "maxTimeout s"; cases "trailing opts")
       (simp_all add: fst_trailingEdge fst_invokeFunc args_of_def Let_def)
qed

theorem C8_flush_like_timer_witness:
  "lastArgs (serve (debounce_defaults 100) (\<lambda>th a. Returns (length a)) debounce_init
      [(0, (), [1::nat]), (50, (), [2])]) = Some [2]
   \<and> lastCallTime (serve (debounce_defaults 100) (\<lambda>th a. Returns (length a)) debounce_init
      [(0, (), [1::nat]), (50, (), [2])]) = Some 50
   \<and> timeout (serve (debounce_defaults 100) (\<lambda>th a. Returns (length a)) debounce_init
      [(0, (), [1::nat]), (50, (), [2])]) \<noteq> None
   \<and> live_queue 150 (serve (debounce_defaults 100) (\<lambda>th a. Returns (length a)) debounce_init
      [(0, (), [1::nat]), (50, (), [2])])
   \<and> 50 + wait (debounce_defaults 100) \<le> 150
   \<and> invocations (fst (flush (debounce_defaults 100) (\<lambda>th a. Returns (length a)) 60
        (serve (debounce_defaults 100) (\<lambda>th a. Returns (length a)) debounce_init
           [(0, (), [1::nat]), (50, (), [2])])))
      = [(60, Some (), [2])]
   \<and> invocations (advance (debounce_defaults 100) (\<lambda>th a. Returns (length a)) 150
        (serve (debounce_defaults 100) (\<lambda>th a. Returns (length a)) debounce_init
           [(0, (), [1::nat]), (50, (), [2])]))
      = [(150, Some (), [2])]
   \<and> result (advance (debounce_defaults 100) (\<lambda>th a. Returns (length a)) 150
        (serve (debounce_defaults 100) (\<lambda>th a. Returns (length a)) debounce_init
           [(0, (), [1::nat]), (50, (), [2])]))
      = result (fst (flush (debounce_defaults 100) (\<lambda>th a. Returns (length a)) 60
        (serve (debounce_defaults 100) (\<lambda>th a. Returns (length a)) debounce_init
           [(0, (), [1::nat]), (50, (), [2])])))"
proof -
  let ?o = "debounce_defaults 100"
  let ?f = "\<lambda>(th :: unit option) (a :: nat list). Returns (length a)"
  let ?s = "serve ?o ?f debounce_init [(0, (), [1::nat]), (50, (), [2])]"
  have s: "?s = debounce_init\<lparr>lastArgs := Some [2], lastThis := Some (), lastCallTime := Some 50,
                  timers := [(0, TimerExpired, 100)], nextHandle := 1, timeout := Some 0\<rparr>"
    by (simp add: debounce_defaults_def debounce_init_def advance_idle advance_wait
        fst_debounced fst_leadingEdge shouldInvoke_def orZero_def Let_def)
  have h: "lastArgs ?s = Some [2]" "lastCallTime ?s = Some 50" "timeout ?s \<noteq> None"
    "live_queue 150 ?s" "50 + wait ?o \<le> 150"
    unfolding s by (simp_all add: live_queue_def sound_queue_def debounce_defaults_def debounce_init_def)
  have i: "invocations ?s = []" "lastThis ?s = Some ()" "trailing ?o"
    unfolding s by (simp_all add: debounce_init_def debounce_defaults_def)
  have l: "lastInvokeTime (advance ?o ?f 150 ?s) = 150"
    unfolding s
    by (simp add: debounce_defaults_def debounce_init_def advance_idle advance_wait advance_fire
        deb_fst shouldInvoke_def remainingWait_def orZero_def args_of_def result_after_def Let_def)
  note C = C8_flush_like_timer [OF h, where func = ?f and t = 60]
  from C have a: "invocations (fst (flush ?o ?f 60 ?s))
          = invocations ?s @ (if trailing ?o then [(60, lastThis ?s, [2])] else [])"
    by blast
  from C have b: "invocations (advance ?o ?f 150 ?s)
          = invocations ?s
            @ (if trailing ?o then [(lastInvokeTime (advance ?o ?f 150 ?s), lastThis ?s, [2])] else [])"
    by blast
  from C have c: "result (advance ?o ?f 150 ?s) = result (fst (flush ?o ?f 60 ?s))"
    by blast
  from a b have "invocations (fst (flush ?o ?f 60 ?s)) = [(60, Some (), [2])]"
    and "invocations (advance ?o ?f 150 ?s) = [(150, Some (), [2])]"
    unfolding i(1,2) l using i(3) by simp_all
  with h c show ?thesis by blast
qed

text \<open>
  C8 as claimed promises the same resulting governor state as letting the clock run to
  the scheduled fire time.  \<^verbatim>\<open>trailingEdge\<close> records the time it runs at: after a call
  at 0 with \<^verbatim>\<open>wait = 100\<close>, \<^verbatim>\<open>lastInvokeTime\<close> is 30 after a flush at 30 and 100 after
  the wait.
\<close>

theorem C8_counterexample:
  "lastInvokeTime (fst (flush (debounce_defaults 100) (\<lambda>th a. Returns (length a)) 30
      (serve (debounce_defaults 100) (\<lambda>th a. Returns (length a)) debounce_init [(0, (), [1::nat])])))
     = 30
   \<and> lastInvokeTime (advance (debounce_defaults 100) (\<lambda>th a. Returns (length a)) 100
      (serve (debounce_defaults 100) (\<lambda>th a. Returns (length a)) debounce_init [(0, (), [1::nat])]))
     = 100"
  by (simp add: debounce_defaults_def debounce_init_def advance_idle advance_wait advance_fire
      deb_fst shouldInvoke_def remainingWait_def orZero_def args_of_def result_after_def Let_def)

text \<open>
  C9.  For both governors: when the wrapped function throws during an invocation,
  \<^verbatim>\<open>invokeFunc\<close> has already set \<^verbatim>\<open>lastInvokeTime\<close> to the invocation time and
  cleared the pending arguments and receiver; the state is the one a successful
  invocation leaves, but for \<^verbatim>\<open>result\<close>, which keeps its old value.  The same holds for
  every operation of the wrapper (call, timer firing, cancel, flush): the state it leaves
  does not depend on what the wrapped function does, \<^verbatim>\<open>result\<close> apart, so a throwing
  function leaves the governor exactly as pending as a returning one.
\<close>

theorem C9_failed_invocation:
  fixes s :: "('a, 't, 'r) debounce_state" and u :: "('a, 't, 'r) throttle_state"
  assumes "func (lastThis s) (args_of (lastArgs s)) = Throws"
      and "func (lastThis u) (args_of (lastArgs u)) = Throws"
  shows "invokeFunc func time s =
           (s\<lparr>lastArgs := None, lastThis := None, lastInvokeTime := time,
              invocations := invocations s @ [(time, lastThis s, args_of (lastArgs s))]\<rparr>, Throws)
       \<and> (fst (invokeFunc g time s))\<lparr>result := result s\<rparr> = fst (invokeFunc func time s)
       \<and> (step opts g s ev)\<lparr>result := r\<rparr> = (step opts func s ev)\<lparr>result := r\<rparr>
       \<and> invokeFunc_thr func time u =
           (u\<lparr>lastArgs := None, lastThis := None, lastInvokeTime := time,
              invocations := invocations u @ [(time, lastThis u, args_of (lastArgs u))]\<rparr>, Throws)
       \<and> (fst (invokeFunc_thr g time u))\<lparr>result := result u\<rparr> = fst (invokeFunc_thr func time u)
       \<and> (step_thr topts g u ev)\<lparr>result := r\<rparr> = (step_thr topts func u ev)\<lparr>result := r\<rparr>"
proof -
  have "invokeFunc func time s =
           (s\<lparr>lastArgs := None, lastThis := None, lastInvokeTime := time,
              invocations := invocations s @ [(time, lastThis s, args_of (lastArgs s))]\<rparr>, Throws)"
    using assms(1) by (simp add: invokeFunc_def args_of_def Let_def)
  moreover have "(fst (invokeFunc g time s))\<lparr>result := result s\<rparr> = fst (invokeFunc func time s)"
    using assms(1) by (simp add: fst_invokeFunc result_after_def)
  moreover have "invokeFunc_thr func time u =
           (u\<lparr>lastArgs := None, lastThis := None, lastInvokeTime := time,
              invocations := invocations u @ [(time, lastThis u, args_of (lastArgs u))]\<rparr>, Throws)"
    using assms(2) by (simp add: invokeFunc_thr_def args_of_def Let_def)
  moreover have "(fst (invokeFunc_thr g time u))\<lparr>result := result u\<rparr> = fst (invokeFunc_thr func time u)"
    using assms(2) by (simp add: fst_invokeFunc_thr result_after_def)
  ultimately show ?thesis
    using res_step [where opts = opts and func = g and s = s and ev = ev and r = r and g = func]
      res_step_thr [where opts = topts and func = g and s = u and ev = ev and r = r and g = func]
    by simp
qed

theorem C9_failed_invocation_witness:
  "(\<lambda>th a. Throws :: nat res) (Some ()) [1::nat] = Throws
   \<and> invokeFunc (\<lambda>th a. Throws :: nat res) 5
        (debounce_init\<lparr>lastArgs := Some [1::nat], lastThis := Some ()\<rparr>)
      = (debounce_init\<lparr>lastInvokeTime := 5, invocations := [(5, Some (), [1])]\<rparr>, Throws)
   \<and> invokeFunc_thr (\<lambda>th a. Throws :: nat res) 5
        (throttle_init\<lparr>lastArgs := Some [1::nat], lastThis := Some ()\<rparr>)
      = (throttle_init\<lparr>lastInvokeTime := 5, invocations := [(5, Some (), [1])]\<rparr>, Throws)"
  using C9_failed_invocation
    [where func = "\<lambda>th a. Throws :: nat res"
       and s = "debounce_init\<lparr>lastArgs := Some [1::nat], lastThis := Some ()\<rparr>"
       and u = "throttle_init\<lparr>lastArgs := Some [1::nat], lastThis := Some ()\<rparr>"
       and time = 5]
  by (simp add: debounce_init_def throttle_init_def args_of_def)

text \<open>
  C10.  For both governors: right after \<^verbatim>\<open>cancel()\<close>, \<^verbatim>\<open>shouldInvoke\<close> holds at every
  clock reading, and the next call takes the leading edge exactly as the first call ever
  does; with \<^verbatim>\<open>leading = true\<close> that call applies the wrapped function at once to its own
  receiver and arguments, however recently the function ran before the cancel.
\<close>

theorem C10_call_after_cancel:
  fixes s :: "('a, 't, 'r) debounce_state" and u :: "('a, 't, 'r) throttle_state"
  shows "shouldInvoke opts t (cancel s)
       \<and> debounced opts func t this args (cancel s) =
           leadingEdge opts func t
             ((cancel s)\<lparr>lastArgs := Some args, lastThis := Some this, lastCallTime := Some t\<rparr>)
       \<and> (leading opts \<longrightarrow>
            invocations (fst (debounced opts func t this args (cancel s)))
              = invocations s @ [(t, Some this, args)])
       \<and> shouldInvoke_thr topts t (cancel_thr u)
       \<and> throttled topts func t this args (cancel_thr u) =
           leadingEdge_thr topts func t
             ((cancel_thr u)\<lparr>lastArgs := Some args, lastThis := Some this, lastCallTime := Some t\<rparr>)
       \<and> (leading topts \<longrightarrow>
            invocations (fst (throttled topts func t this args (cancel_thr u)))
              = invocations u @ [(t, Some this, args)])"
proof -
  have c: "lastCallTime (cancel s) = None" "timeout (cancel s) = None"
          "invocations (cancel s) = invocations s"
    by (simp_all add: cancel_def clearTimeout_def Let_def split: option.splits)
  have ct: "lastCallTime (cancel_thr u) = None" "timeout (cancel_thr u) = None"
           "invocations (cancel_thr u) = invocations u"
    by (simp_all add: cancel_thr_def clearTimeout_def Let_def split: option.splits)
  have 1: "shouldInvoke opts t (cancel s)" by (simp add: shouldInvoke_def c)
  have 2: "shouldInvoke_thr topts t (cancel_thr u)" by (simp add: shouldInvoke_thr_def ct)
  have 3: "debounced opts func t this args (cancel s) =
           leadingEdge opts func t
             ((cancel s)\<lparr>lastArgs := Some args, lastThis := Some this, lastCallTime := Some t\<rparr>)"
    using 1 by (simp add: debounced_def c Let_def)
  have 4: "throttled topts func t this args (cancel_thr u) =
           leadingEdge_thr topts func t
             ((cancel_thr u)\<lparr>lastArgs := Some args, lastThis := Some this, lastCallTime := Some t\<rparr>)"
    using 2 by (simp add: throttled_def ct Let_def)
  have 5: "leading opts \<longrightarrow>
            invocations (fst (debounced opts func t this args (cancel s)))
              = invocations s @ [(t, Some this, args)]"
    by (simp add: 3 fst_leadingEdge fst_invokeFunc c args_of_def Let_def split: option.splits)
  have 6: "leading topts \<longrightarrow>
            invocations (fst (throttled topts func t this args (cancel_thr u)))
              = invocations u @ [(t, Some this, args)]"
    by (simp add: 4 fst_leadingEdge_thr fst_invokeFunc_thr ct args_of_def Let_def)
  from 1 2 3 4 5 6 show ?thesis by blast
qed

theorem C10_call_after_cancel_witness:
  "leading \<lparr>wait = 100, leading = True, trailing = True, maxWait = None\<rparr>
   \<and> invocations (fst (debounced \<lparr>wait = 100, leading = True, trailing = True, maxWait = None\<rparr>
        (\<lambda>th a. Returns (length a)) 7 () [1::nat]
        (cancel (run \<lparr>wait = 100, leading = True, trailing = True, maxWait = None\<rparr>
           (\<lambda>th a. Returns (length a)) debounce_init [Call 5 () [0]]))))
     = [(5, Some (), [0]), (7, Some (), [1])]
   \<and> leading (throttle_defaults 100)
   \<and> invocations (fst (throttled (throttle_defaults 100)
        (\<lambda>th a. Returns (length a)) 7 () [1::nat]
        (cancel_thr (run_thr (throttle_defaults 100)
           (\<lambda>th a. Returns (length a)) throttle_init [Call 5 () [0]]))))
     = [(5, Some (), [0]), (7, Some (), [1])]"
proof -
  let ?o = "\<lparr>wait = 100, leading = True, trailing = True, maxWait = None\<rparr>"
  let ?f = "\<lambda>(th :: unit option) (a :: nat list). Returns (length a)"
  let ?s = "run ?o ?f debounce_init [Call 5 () [0::nat]]"
  let ?u = "run_thr (throttle_defaults 100) ?f throttle_init [Call 5 () [0::nat]]"
  have s: "invocations ?s = [(5, Some (), [0])]"
    by (simp add: run_def debounce_init_def deb_fst shouldInvoke_def args_of_def Let_def)
  have u: "invocations ?u = [(5, Some (), [0])]"
    by (simp add: run_thr_def throttle_defaults_def throttle_init_def thr_fst shouldInvoke_thr_def
        args_of_def Let_def)
  have l: "leading ?o" "leading (throttle_defaults 100)"
    by (simp_all add: throttle_defaults_def)
  note C = C10_call_after_cancel
    [where opts = ?o and t = 7 and s = ?s and func = ?f and this = "()" and args = "[1::nat]"
       and topts = "throttle_defaults 100" and u = ?u]
  from C l have a: "invocations (fst (debounced ?o ?f 7 () [1::nat] (cancel ?s)))
                     = invocations ?s @ [(7, Some (), [1])]"
    by blast
  from C l have b: "invocations (fst (throttled (throttle_defaults 100) ?f 7 () [1::nat] (cancel_thr ?u)))
                     = invocations ?u @ [(7, Some (), [1])]"
    by blast
  from a b l show ?thesis unfolding s u by simp
qed

end
